theory Spec2Isabelle
  imports Complex_Main "HOL-Library.Word"
begin

unbundle bit_operations_syntax

section \<open>The playback hook \<open>useVisualization\<close>\<close>

subsection \<open>The numbers of the hook\<close>

text \<open>
  \<open>goToStep\<close> takes a JavaScript \<open>number\<close> and stores what \<open>Math.max\<close> and
  \<open>Math.min\<close> make of it, so the cursor is a double: a finite value, one of the two
  infinities, or NaN. A finite double is the real number it denotes; the two zeros are
  one value, since the comparisons and indexing by the cursor do not tell them apart.
  Not every real is a double: what the hook stores is a double whenever its argument
  is one, since \<open>Math.min\<close> and \<open>Math.max\<close> return one of their arguments and a sum
  is rounded.
\<close>

datatype double = Val real | PlusInfinity | MinusInfinity | NaN

text \<open>
  Rounding to binary64, to the nearest double with ties to the even significand:
  53 significant bits, exponents from \<open>-1022\<close> to \<open>1023\<close>, subnormal values below
  (all multiples of \<open>2^-1074\<close>), and overflow to an infinity. \<open>bits n\<close> is the
  number of binary digits of \<open>n\<close>, and \<open>ilog2 a\<close> is \<open>\<lfloor>log\<^sub>2 a\<rfloor>\<close> for \<open>a > 0\<close>.
\<close>

fun bits :: "nat \<Rightarrow> nat" where
  "bits n = (if n = 0 then 0 else Suc (bits (n div 2)))"

declare bits.simps [simp del]

definition pow2 :: "int \<Rightarrow> real" where
  "pow2 e = (if 0 \<le> e then 2 ^ nat e else 1 / 2 ^ nat (- e))"

definition ilog2 :: "real \<Rightarrow> int" where
  "ilog2 a = (if 1 \<le> a then int (bits (nat \<lfloor>a\<rfloor>)) - 1
              else - int (bits (nat (\<lceil>1 / a\<rceil> - 1))))"

definition roundTiesToEven :: "real \<Rightarrow> int" where
  "roundTiesToEven m =
     (let f = \<lfloor>m\<rfloor>; d = m - of_int f in
      if d < 1 / 2 then f else if 1 / 2 < d then f + 1 else if even f then f else f + 1)"

definition binary64 :: "real \<Rightarrow> double" where
  "binary64 x =
     (if x = 0 then Val 0
      else let a = \<bar>x\<bar>;
               e = max (ilog2 a) (- 1022);
               q = pow2 (e - 52);
               r = of_int (roundTiesToEven (a / q)) * q
           in if pow2 1024 \<le> r then (if 0 < x then PlusInfinity else MinusInfinity)
              else Val (if 0 < x then r else - r))"

text \<open>
  \<open>a + y\<close> for a finite \<open>y\<close>: the exact sum, rounded. An infinity and NaN stay what
  they are.
\<close>

definition js_add :: "double \<Rightarrow> real \<Rightarrow> double" where
  "js_add a y = (case a of Val x \<Rightarrow> binary64 (x + y) | _ \<Rightarrow> a)"

text \<open>
  \<open>a < b\<close> and \<open>a >= b\<close> are both false when either side is NaN; \<open>Math.min\<close> and
  \<open>Math.max\<close> return NaN when either argument is NaN.
\<close>

fun js_lt :: "double \<Rightarrow> double \<Rightarrow> bool" where
  "js_lt (Val x) (Val y) = (x < y)"
| "js_lt (Val x) PlusInfinity = True"
| "js_lt MinusInfinity (Val y) = True"
| "js_lt MinusInfinity PlusInfinity = True"
| "js_lt _ _ = False"

definition js_ge :: "double \<Rightarrow> double \<Rightarrow> bool" where
  "js_ge a b = (a \<noteq> NaN \<and> b \<noteq> NaN \<and> \<not> js_lt a b)"

definition Math_min :: "double \<Rightarrow> double \<Rightarrow> double" where
  "Math_min a b = (if a = NaN \<or> b = NaN then NaN else if js_lt b a then b else a)"

definition Math_max :: "double \<Rightarrow> double \<Rightarrow> double" where
  "Math_max a b = (if a = NaN \<or> b = NaN then NaN else if js_lt a b then b else a)"

subsection \<open>The state and its updates\<close>

text \<open>
  \<open>VisualizationState\<close> of \<open>types/algorithm.ts\<close>, generic in the step and result
  types. \<open>currentStep\<close> is a double, as above. \<open>totalSteps\<close> only ever holds 0 or the
  length of an array, so it is an \<open>int\<close>; where the code computes
  \<open>totalSteps - 1\<close> the model takes that integer as a double, which is exact for the
  length of any array (below \<open>2^32\<close>). \<open>result: AlgorithmResult | null\<close> is an
  option.
\<close>

datatype PlaybackSpeed = slow | medium | fast

record ('s, 'r) VisualizationState =
  isPlaying :: bool
  isPaused :: bool
  currentStep :: double
  totalSteps :: int
  speed :: PlaybackSpeed
  steps :: "'s list"
  result :: "'r option"

definition SPEED_MAP :: "PlaybackSpeed \<Rightarrow> nat" where
  "SPEED_MAP sp = (case sp of slow \<Rightarrow> 1500 | medium \<Rightarrow> 800 | fast \<Rightarrow> 300)"

definition initialState :: "('s, 'r) VisualizationState" where
  "initialState =
     \<lparr>isPlaying = False, isPaused = False, currentStep = Val 0, totalSteps = 0,
      speed = medium, steps = [], result = None\<rparr>"

text \<open>
  Each callback of the hook is a state update \<open>setState(prev => ...)\<close>; the model is
  the function from \<open>prev\<close> to the next state. The object spread \<open>...prev\<close> keeps
  every field that is not listed.
\<close>

definition setSteps :: "'s list \<Rightarrow> ('s, 'r) VisualizationState \<Rightarrow> ('s, 'r) VisualizationState" where
  "setSteps new prev =
     prev\<lparr>steps := new, totalSteps := int (length new), currentStep := Val 0, result := None\<rparr>"

definition goToStep :: "double \<Rightarrow> ('s, 'r) VisualizationState \<Rightarrow> ('s, 'r) VisualizationState" where
  "goToStep stepIndex prev =
     prev\<lparr>currentStep :=
       Math_max (Val 0) (Math_min stepIndex (Val (of_int (totalSteps prev - 1))))\<rparr>"

definition nextStep :: "('s, 'r) VisualizationState \<Rightarrow> ('s, 'r) VisualizationState" where
  "nextStep prev =
     (if js_ge (currentStep prev) (Val (of_int (totalSteps prev - 1)))
      then prev\<lparr>isPlaying := False\<rparr>
      else prev\<lparr>currentStep := js_add (currentStep prev) 1\<rparr>)"

definition prevStep :: "('s, 'r) VisualizationState \<Rightarrow> ('s, 'r) VisualizationState" where
  "prevStep prev = prev\<lparr>currentStep := Math_max (Val 0) (js_add (currentStep prev) (- 1))\<rparr>"

definition play :: "('s, 'r) VisualizationState \<Rightarrow> ('s, 'r) VisualizationState" where
  "play prev = prev\<lparr>isPlaying := True, isPaused := False\<rparr>"

definition pause :: "('s, 'r) VisualizationState \<Rightarrow> ('s, 'r) VisualizationState" where
  "pause prev = prev\<lparr>isPlaying := False, isPaused := True\<rparr>"

definition reset :: "('s, 'r) VisualizationState \<Rightarrow> ('s, 'r) VisualizationState" where
  "reset prev =
     prev\<lparr>isPlaying := False, isPaused := False, currentStep := Val 0, result := None\<rparr>"

definition setSpeed :: "PlaybackSpeed \<Rightarrow> ('s, 'r) VisualizationState \<Rightarrow> ('s, 'r) VisualizationState" where
  "setSpeed sp prev = prev\<lparr>speed := sp\<rparr>"

definition setResult :: "'r \<Rightarrow> ('s, 'r) VisualizationState \<Rightarrow> ('s, 'r) VisualizationState" where
  "setResult r prev = prev\<lparr>result := Some r\<rparr>"

text \<open>
  The auto-play effect. While playing before the last step it arms a timer whose
  callback is \<open>nextStep\<close>; when playing at or past the last step it clears
  \<open>isPlaying\<close>. The delay itself is real time and is not modelled: the effect is the
  state it leads to once the timer, if armed, has fired.
\<close>

definition autoPlay :: "('s, 'r) VisualizationState \<Rightarrow> ('s, 'r) VisualizationState" where
  "autoPlay st =
     (if isPlaying st \<and> js_lt (currentStep st) (Val (of_int (totalSteps st - 1)))
      then nextStep st
      else if isPlaying st \<and> js_ge (currentStep st) (Val (of_int (totalSteps st - 1)))
      then st\<lparr>isPlaying := False\<rparr>
      else st)"

text \<open>A session is any sequence of calls on the hook, starting from \<open>initialState\<close>.\<close>

datatype ('s, 'r) call =
    SetSteps "'s list"
  | GoToStep double
  | NextStep
  | PrevStep
  | Play
  | Pause
  | Reset
  | SetSpeed PlaybackSpeed
  | SetResult 'r
  | AutoPlay

fun apply_call :: "('s, 'r) VisualizationState \<Rightarrow> ('s, 'r) call \<Rightarrow> ('s, 'r) VisualizationState" where
  "apply_call st (SetSteps new) = setSteps new st"
| "apply_call st (GoToStep i) = goToStep i st"
| "apply_call st NextStep = nextStep st"
| "apply_call st PrevStep = prevStep st"
| "apply_call st Play = play st"
| "apply_call st Pause = pause st"
| "apply_call st Reset = reset st"
| "apply_call st (SetSpeed sp) = setSpeed sp st"
| "apply_call st (SetResult r) = setResult r st"
| "apply_call st AutoPlay = autoPlay st"

definition session :: "('s, 'r) call list \<Rightarrow> ('s, 'r) VisualizationState" where
  "session calls = foldl apply_call initialState calls"

text \<open>
  The cursor is inside the loaded trace, \<open>0 \<le> cursor < length\<close>, or 0 when the trace
  is empty.
\<close>

definition in_trace :: "double \<Rightarrow> nat \<Rightarrow> bool" where
  "in_trace a len =
     (case a of Val x \<Rightarrow> (if len = 0 then x = 0 else 0 \<le> x \<and> x < real len) | _ \<Rightarrow> False)"

definition cursor_in_range :: "('s, 'r) VisualizationState \<Rightarrow> bool" where
  "cursor_in_range st = in_trace (currentStep st) (length (steps st))"

text \<open>The index of a trace of length \<open>len\<close> nearest to the integer \<open>i\<close>.\<close>

definition clamp_index :: "int \<Rightarrow> nat \<Rightarrow> int" where
  "clamp_index i len =
     (if len = 0 \<or> i < 0 then 0 else if int len \<le> i then int len - 1 else i)"

text \<open>
  A whole number is a finite double with no fractional part. A call is a whole move
  when what it passes can be an index or a trace: \<open>goToStep\<close> with a whole number or
  an infinity, \<open>setSteps\<close> with an array (shorter than \<open>2^32\<close>, as every array is),
  and every call that takes no such argument. The cursor is at an index when it is a
  whole number inside the trace.
\<close>

definition whole :: "double \<Rightarrow> bool" where
  "whole a = (case a of Val x \<Rightarrow> x = of_int \<lfloor>x\<rfloor> | _ \<Rightarrow> False)"

definition whole_move :: "('s, 'r) call \<Rightarrow> bool" where
  "whole_move c =
     (case c of
        GoToStep a \<Rightarrow> whole a \<or> a = PlusInfinity \<or> a = MinusInfinity
      | SetSteps new \<Rightarrow> length new < 2 ^ 32
      | _ \<Rightarrow> True)"

definition at_index :: "('s, 'r) VisualizationState \<Rightarrow> bool" where
  "at_index st = (whole (currentStep st) \<and> cursor_in_range st)"

section \<open>JavaScript values and trace steps\<close>

text \<open>
  A JavaScript number is an IEEE double. The model tracks the integers a double holds
  exactly, those of magnitude at most \<open>2^53\<close>; every other double (a fraction, a
  rounded sum, an infinity, NaN) is \<open>Untracked\<close>: the model says nothing about its
  value. A sum of two tracked integers is tracked when it is itself in that range,
  where the double addition is exact.
\<close>

datatype number = Exact int | Untracked

definition num_add :: "number \<Rightarrow> number \<Rightarrow> number" where
  "num_add x y =
     (case (x, y) of
        (Exact a, Exact b) \<Rightarrow> (if \<bar>a + b\<bar> \<le> 2 ^ 53 then Exact (a + b) else Untracked)
      | _ \<Rightarrow> Untracked)"

text \<open>
  The values found in a step's payload: \<open>Big\<close> is a BigInt, \<open>Arr\<close> an array.
  A payload is the object literal, its fields in the order written.
\<close>

datatype jsval =
    Undefined
  | Bool bool
  | Num number
  | Big int
  | Str string
  | Arr "jsval list"

datatype kind =
    Init | BaseCase | Complete | ComputeStart | InitDp | Compute | Store
  | SolutionFound | StepLimit | TryRow | TryCol | CheckSafe | PlaceQueen | Backtrack
  | NoSolution

text \<open>
  A \<open>VisualizationStep\<close>. The \<open>description\<close> field is display text assembled from
  the values the payload already holds, and is left out. Where the source stores
  \<open>v.toString()\<close> in a payload, the payload here keeps \<open>v\<close> itself.
\<close>

record step =
  kind :: kind
  payload :: "(string \<times> jsval) list"
  codeLine :: int

definition field :: "string \<Rightarrow> step \<Rightarrow> jsval option" where
  "field name s = map_of (payload s) name"

text \<open>
  A JavaScript array whose slots can be holes (\<open>None\<close>). Reading a hole or an index
  that is not there gives \<open>undefined\<close> (\<open>None\<close>); writing past the end extends the
  array and leaves holes in between.
\<close>

definition arr_get :: "'a option list \<Rightarrow> int \<Rightarrow> 'a option" where
  "arr_get xs i = (if 0 \<le> i \<and> i < int (length xs) then xs ! nat i else None)"

definition arr_set :: "'a option list \<Rightarrow> nat \<Rightarrow> 'a \<Rightarrow> 'a option list" where
  "arr_set xs i v =
     (if i < length xs then xs[i := Some v]
      else xs @ replicate (i - length xs) None @ [Some v])"

datatype error = TypeError | RangeError

section \<open>The Fibonacci runner\<close>

datatype strategy = Iterative | DpArray | FastDoubling

datatype fib_mode = Full | Condensed | ComputationOnly

text \<open>
  \<open>FibonacciInput\<close>. \<open>n\<close> and \<open>detailLevel\<close> are integers in the model (the type
  leaves out fractional numbers); an optional field is an option.
\<close>

record FibonacciInput =
  f_n :: int
  f_strategy :: "strategy option"
  f_detailLevel :: "int option"
  f_mode :: "fib_mode option"

definition strategy_name :: "strategy \<Rightarrow> string" where
  "strategy_name s =
     (case s of Iterative \<Rightarrow> ''iterative'' | DpArray \<Rightarrow> ''dp-array''
      | FastDoubling \<Rightarrow> ''fast-doubling'')"

definition fib_mode_name :: "fib_mode \<Rightarrow> string" where
  "fib_mode_name m =
     (case m of Full \<Rightarrow> ''full'' | Condensed \<Rightarrow> ''condensed''
      | ComputationOnly \<Rightarrow> ''computation-only'')"

subsection \<open>\<open>fastDoubling\<close> and \<open>iterativeFib\<close>\<close>

text \<open>
  Both take a non-negative integer (\<open>nat\<close>) and return a BigInt (\<open>int\<close>).
  \<open>Math.floor(k / 2)\<close> is \<open>k div 2\<close> and \<open>k % 2\<close> is \<open>k mod 2\<close> on these.
\<close>

fun fibHelper :: "nat \<Rightarrow> int \<times> int" where
  "fibHelper k =
     (if k = 0 then (0, 1)
      else if k = 1 then (1, 1)
      else
        (let (a, b) = fibHelper (k div 2);
             c = a * (2 * b - a);
             d = b * b + a * a
         in if k mod 2 = 0 then (c, d) else (d, c + d)))"

declare fibHelper.simps [simp del]

definition fastDoubling :: "nat \<Rightarrow> int" where
  "fastDoubling n = (if n = 0 then 0 else if n = 1 then 1 else fst (fibHelper n))"

function iterativeFib_loop :: "nat \<Rightarrow> nat \<Rightarrow> int \<times> int \<Rightarrow> int \<times> int" where
  "iterativeFib_loop n i (a, b) =
     (if i \<le> n then (let temp = a + b in iterativeFib_loop n (i + 1) (b, temp))
      else (a, b))"
  by pat_completeness auto
termination
  by (relation "measure (\<lambda>(n, i, ab). Suc n - i)") auto

declare iterativeFib_loop.simps [simp del]

definition iterativeFib :: "nat \<Rightarrow> int" where
  "iterativeFib n = (if n \<le> 1 then int n else snd (iterativeFib_loop n 2 (0, 1)))"

subsection \<open>\<open>fibonacciRunner.generateSteps\<close>\<close>

definition MAX_DP_ARRAY_SIZE :: int where
  "MAX_DP_ARRAY_SIZE = 10000"

text \<open>
  The sampling stride. \<open>Math.floor(n / d)\<close> for integers \<open>n\<close> and \<open>d \<noteq> 0\<close> is
  \<open>n div d\<close>. In the iterative path \<open>d = 100 - detailLevel\<close> can be 0; then, for the
  \<open>n \<ge> 2\<close> that reach it, \<open>n / 0\<close> is \<open>Infinity\<close>, which \<open>Math.floor\<close> and
  \<open>Math.max\<close> keep, and \<open>i % Infinity\<close> is \<open>i\<close>.
\<close>

datatype rate = Finite int | Infinity

definition js_rem_is_zero :: "int \<Rightarrow> rate \<Rightarrow> bool" where
  "js_rem_is_zero i r = (case r of Finite k \<Rightarrow> i mod k = 0 | Infinity \<Rightarrow> i = 0)"

definition iterative_sampleRate :: "fib_mode \<Rightarrow> int \<Rightarrow> int \<Rightarrow> rate" where
  "iterative_sampleRate m n detailLevel =
     (if m = Condensed then
        (if 100 - detailLevel = 0 then Infinity
         else Finite (max 1 (n div (100 - detailLevel))))
      else Finite 1)"

definition dp_sampleRate :: "fib_mode \<Rightarrow> int \<Rightarrow> int \<Rightarrow> rate" where
  "dp_sampleRate m n detailLevel =
     (if m = Condensed then Finite (max 1 (n div (max 1 ((100 - detailLevel) * 10))))
      else Finite 1)"

text \<open>The loop of the iterative strategy; \<open>a\<close> and \<open>b\<close> are JavaScript numbers.\<close>

function iterative_loop ::
  "int \<Rightarrow> rate \<Rightarrow> int \<Rightarrow> number \<times> number \<times> step list \<Rightarrow> number \<times> number \<times> step list" where
  "iterative_loop n sampleRate i (a, b, out) =
     (if i \<le> n then
        (let shouldSample = (js_rem_is_zero i sampleRate \<or> i = n \<or> i \<le> 10);
             out1 = (if shouldSample then
                       out @ [\<lparr>kind = Compute,
                               payload = [(''i'', Num (Exact i)), (''prev1'', Num b),
                                          (''prev2'', Num a), (''dp'', Arr [Num a, Num b]),
                                          (''n'', Num (Exact n)), (''strategy'', Str ''iterative'')],
                               codeLine = 10\<rparr>]
                     else out);
             temp = num_add a b;
             a' = b;
             b' = temp;
             out2 = (if shouldSample then
                       out1 @ [\<lparr>kind = Store,
                                payload = [(''i'', Num (Exact i)), (''value'', Num b'),
                                           (''dp'', Arr [Num a', Num b']),
                                           (''n'', Num (Exact n)), (''strategy'', Str ''iterative'')],
                                codeLine = 11\<rparr>]
                     else out1)
         in iterative_loop n sampleRate (i + 1) (a', b', out2))
      else (a, b, out))"
  by pat_completeness auto
termination
  by (relation "measure (\<lambda>(n, r, i, s). nat (n + 1 - i))") auto

declare iterative_loop.simps [simp del]

text \<open>
  The table of the dp-array strategy holds numbers or BigInts. \<open>+\<close> adds two
  BigInts or two numbers, throws a TypeError when a BigInt meets anything else, and
  gives NaN when \<open>undefined\<close> meets a number or \<open>undefined\<close>. \<open>toString\<close> of
  \<open>undefined\<close> throws a TypeError.
\<close>

datatype cell = Number number | BigInt int

fun cell_plus :: "cell option \<Rightarrow> cell option \<Rightarrow> error + cell" where
  "cell_plus (Some (BigInt a)) (Some (BigInt b)) = Inr (BigInt (a + b))"
| "cell_plus (Some (Number a)) (Some (Number b)) = Inr (Number (num_add a b))"
| "cell_plus (Some (BigInt a)) _ = Inl TypeError"
| "cell_plus _ (Some (BigInt b)) = Inl TypeError"
| "cell_plus _ _ = Inr (Number Untracked)"

definition cell_val :: "cell \<Rightarrow> jsval" where
  "cell_val c = (case c of Number x \<Rightarrow> Num x | BigInt x \<Rightarrow> Big x)"

definition cell_toString :: "cell option \<Rightarrow> error + jsval" where
  "cell_toString c = (case c of None \<Rightarrow> Inl TypeError | Some v \<Rightarrow> Inr (cell_val v))"

definition dp_strings :: "cell option list \<Rightarrow> jsval" where
  "dp_strings dp = Arr (map (\<lambda>c. case c of None \<Rightarrow> Undefined | Some v \<Rightarrow> cell_val v) dp)"

function dp_loop ::
  "int \<Rightarrow> fib_mode \<Rightarrow> rate \<Rightarrow> int \<Rightarrow> cell option list \<times> step list
     \<Rightarrow> error + cell option list \<times> step list" where
  "dp_loop n m sampleRate i (dp, out) =
     (if i \<le> n \<and> i \<le> MAX_DP_ARRAY_SIZE then
        (let shouldSample = (m = Full \<or> js_rem_is_zero i sampleRate \<or> i = n \<or> i \<le> 10) in
         case (if shouldSample then
                 (case cell_toString (arr_get dp (i - 1)) of Inl e \<Rightarrow> Inl e | Inr prev1 \<Rightarrow>
                  case cell_toString (arr_get dp (i - 2)) of Inl e \<Rightarrow> Inl e | Inr prev2 \<Rightarrow>
                    Inr (out @ [\<lparr>kind = Compute,
                                 payload = [(''i'', Num (Exact i)), (''prev1'', prev1),
                                            (''prev2'', prev2), (''dp'', dp_strings dp),
                                            (''n'', Num (Exact n)), (''strategy'', Str ''dp-array'')],
                                 codeLine = 10\<rparr>]))
               else Inr out) of
           Inl e \<Rightarrow> Inl e
         | Inr out1 \<Rightarrow>
            (case cell_plus (arr_get dp (i - 1)) (arr_get dp (i - 2)) of
               Inl e \<Rightarrow> Inl e
             | Inr v \<Rightarrow>
                (let dp1 = arr_set dp (nat i) v;
                     out2 = (if shouldSample then
                               out1 @ [\<lparr>kind = Store,
                                        payload = [(''i'', Num (Exact i)), (''value'', cell_val v),
                                                   (''dp'', dp_strings dp1),
                                                   (''n'', Num (Exact n)),
                                                   (''strategy'', Str ''dp-array'')],
                                        codeLine = 11\<rparr>]
                             else out1)
                 in dp_loop n m sampleRate (i + 1) (dp1, out2))))
      else Inr (dp, out))"
  by pat_completeness auto
termination
  by (relation "measure (\<lambda>(n, m, r, i, s). nat (n + 1 - i))") auto

declare dp_loop.simps [simp del]

text \<open>
  The dp-array strategy up to the end of its loop: the table is allocated and
  initialised, the \<open>init-dp\<close> step is pushed and the loop fills the table. It returns
  the table and the steps so far.
\<close>

definition dp_array_path ::
  "int \<Rightarrow> fib_mode \<Rightarrow> int \<Rightarrow> step list \<Rightarrow> error + cell option list \<times> step list" where
  "dp_array_path n m detailLevel out0 =
     (let dp0 = replicate (nat (min (n + 1) MAX_DP_ARRAY_SIZE)) (Some (Number (Exact 0)));
          dp1 = arr_set (arr_set dp0 0 (Number (Exact 0))) 1 (Number (Exact 1));
          useBigInt = (n > 78);
          dp2 = (if useBigInt then arr_set (arr_set dp1 0 (BigInt 0)) 1 (BigInt 1) else dp1);
          out1 = out0 @
            [\<lparr>kind = InitDp,
              payload = [(''dp'', dp_strings dp2), (''n'', Num (Exact n)),
                         (''strategy'', Str ''dp-array''), (''useBigInt'', Bool useBigInt)],
              codeLine = 6\<rparr>];
          sampleRate = dp_sampleRate m n detailLevel
      in dp_loop n m sampleRate 2 (dp2, out1))"

definition fib_generateSteps :: "FibonacciInput \<Rightarrow> error + step list" where
  "fib_generateSteps input =
     (let n = f_n input;
          strategy = (case f_strategy input of None \<Rightarrow> DpArray | Some s \<Rightarrow> s);
          detailLevel = (case f_detailLevel input of None \<Rightarrow> 50 | Some d \<Rightarrow> if d = 0 then 50 else d);
          m = (case f_mode input of
                 Some m \<Rightarrow> m
               | None \<Rightarrow> if n \<le> 50 then Full else if n \<le> 10000 then Condensed
                           else ComputationOnly);
          estimatedMemory = n * 8;
          estimatedTime = (if n = 0 then Exact 0 else Untracked);
          out0 = [\<lparr>kind = Init,
                    payload = [(''n'', Num (Exact n)), (''mode'', Str (fib_mode_name m)),
                               (''strategy'', Str (strategy_name strategy)),
                               (''estimatedMemory'', Num (Exact estimatedMemory)),
                               (''estimatedTime'', Num estimatedTime),
                               (''warning'', if n > MAX_DP_ARRAY_SIZE
                                  then Str ''Large input detected. Using computation-only mode.''
                                  else Undefined)],
                    codeLine = 0\<rparr>]
      in
      if n \<le> 1 then
        Inr (out0 @
          [\<lparr>kind = BaseCase,
            payload = [(''n'', Num (Exact n)), (''result'', Num (Exact n)),
                       (''dp'', Arr [Num (Exact n)])],
            codeLine = 2\<rparr>,
           \<lparr>kind = Complete,
            payload = [(''n'', Num (Exact n)), (''result'', Num (Exact n)),
                       (''dp'', Arr [Num (Exact n)])],
            codeLine = 15\<rparr>])
      else if m = ComputationOnly \<or> n > MAX_DP_ARRAY_SIZE then
        (let out1 = out0 @
               [\<lparr>kind = ComputeStart,
                 payload = [(''n'', Num (Exact n)), (''strategy'', Str ''fast-doubling'')],
                 codeLine = 0\<rparr>];
             res = fastDoubling (nat n)
         in Inr (out1 @
               [\<lparr>kind = Complete,
                 payload = [(''n'', Num (Exact n)), (''result'', Big res),
                            (''mode'', Str ''computation-only'')],
                 codeLine = 0\<rparr>]))
      else if strategy = Iterative then
        (let out1 = out0 @
               [\<lparr>kind = InitDp,
                 payload = [(''dp'', Arr [Num (Exact 0), Num (Exact 1)]), (''n'', Num (Exact n)),
                            (''strategy'', Str ''iterative'')],
                 codeLine = 6\<rparr>];
             sampleRate = iterative_sampleRate m n detailLevel;
             (a, b, out2) = iterative_loop n sampleRate 2 (Exact 0, Exact 1, out1)
         in Inr (out2 @
               [\<lparr>kind = Complete,
                 payload = [(''n'', Num (Exact n)), (''result'', Num b),
                            (''dp'', Arr [Num a, Num b])],
                 codeLine = 14\<rparr>]))
      else
        (case dp_array_path n m detailLevel out0 of
           Inl e \<Rightarrow> Inl e
         | Inr (dp3, out2) \<Rightarrow>
            if n > MAX_DP_ARRAY_SIZE then
              (let res = fastDoubling (nat n)
               in Inr (out2 @
                    [\<lparr>kind = Complete,
                      payload = [(''n'', Num (Exact n)), (''result'', Big res),
                                 (''dp'', dp_strings dp3), (''mode'', Str ''computation-only'')],
                      codeLine = 14\<rparr>]))
            else
              (case cell_toString (arr_get dp3 n) of
                 Inl e \<Rightarrow> Inl e
               | Inr res \<Rightarrow>
                  Inr (out2 @
                    [\<lparr>kind = Complete,
                      payload = [(''n'', Num (Exact n)), (''result'', res),
                                 (''dp'', dp_strings dp3)],
                      codeLine = 14\<rparr>]))))"

text \<open>
  \<open>fibonacciRunner.validateInput\<close>. \<open>Number.isInteger(input.n)\<close> holds of every
  \<open>n\<close> of the model's type.
\<close>

record validation =
  valid :: bool
  error :: "string option"

definition fib_validateInput :: "FibonacciInput \<Rightarrow> validation" where
  "fib_validateInput input =
     (if f_n input < 0 then
        \<lparr>valid = False, error = Some ''N must be a non-negative integer''\<rparr>
      else if f_n input > 1000000 then
        \<lparr>valid = False, error = Some ''N must be less than 1,000,000 for safety''\<rparr>
      else if f_detailLevel input \<noteq> None
              \<and> (the (f_detailLevel input) < 0 \<or> the (f_detailLevel input) > 100) then
        \<lparr>valid = False, error = Some ''Detail level must be between 0 and 100''\<rparr>
      else \<lparr>valid = True, error = None\<rparr>)"

section \<open>The N-Queens runner\<close>

datatype nq_mode = QFull | Sampling | FastSolve

record NQueensInput =
  q_n :: int
  q_maxSolutions :: "int option"
  q_mode :: "nq_mode option"
  q_useBitmask :: "bool option"

definition MAX_N :: int where
  "MAX_N = 20"

text \<open>
  The bit sets of the bitmask solver are 32-bit integers: \<open>1 << k\<close> takes the shift
  count modulo 32, and \<open>&\<close>, \<open>|\<close> work on 32 bits. A mask is falsy exactly when it
  is 0.
\<close>

definition shl1 :: "int \<Rightarrow> 32 word" where
  "shl1 k = push_bit (nat (k mod 32)) 1"

definition isSafeBitmask :: "nat \<Rightarrow> nat \<Rightarrow> 32 word \<Rightarrow> 32 word \<Rightarrow> 32 word \<Rightarrow> bool" where
  "isSafeBitmask row col cols diag1 diag2 =
     (let colMask = shl1 (int col);
          diag1Mask = shl1 (int row - int col + MAX_N);
          diag2Mask = shl1 (int row + int col)
      in cols AND colMask = 0 \<and> diag1 AND diag1Mask = 0 \<and> diag2 AND diag2Mask = 0)"

text \<open>
  \<open>isSafeTraditional\<close>: the loop over the rows above \<open>row\<close>, from index \<open>i\<close> on.
  A slot that reads \<open>undefined\<close> matches neither test.
\<close>

function isSafe_from :: "nat \<Rightarrow> nat \<Rightarrow> int option list \<Rightarrow> nat \<Rightarrow> bool" where
  "isSafe_from row col board i =
     (if i < row then
        (case arr_get board (int i) of
           None \<Rightarrow> isSafe_from row col board (i + 1)
         | Some c \<Rightarrow>
            if c = int col then False
            else if \<bar>c - int col\<bar> = \<bar>int i - int row\<bar> then False
            else isSafe_from row col board (i + 1))
      else True)"
  by pat_completeness auto
termination
  by (relation "measure (\<lambda>(row, col, board, i). row - i)") auto

declare isSafe_from.simps [simp del]

definition isSafeTraditional :: "nat \<Rightarrow> nat \<Rightarrow> int option list \<Rightarrow> bool" where
  "isSafeTraditional row col board = isSafe_from row col board 0"

text \<open>
  The solvers are closures inside \<open>generateSteps\<close>. \<open>config\<close> holds the constants
  they capture, \<open>search\<close> the variables they mutate (\<open>emitted\<close> is the \<open>steps\<close>
  array). A solver returns its boolean result and the state it leaves.
\<close>

record config =
  c_n :: nat
  c_maxSolutions :: int
  c_mode :: nq_mode
  MAX_STEPS :: nat
  samplingInterval :: nat

record search =
  emitted :: "step list"
  board :: "int option list"
  solutions :: "int option list list"
  stepCount :: nat

definition push :: "step \<Rightarrow> search \<Rightarrow> search" where
  "push x s = s\<lparr>emitted := emitted s @ [x]\<rparr>"

definition board_val :: "int option list \<Rightarrow> jsval" where
  "board_val b = Arr (map (\<lambda>c. case c of None \<Rightarrow> Undefined | Some v \<Rightarrow> Num (Exact v)) b)"

definition num :: "nat \<Rightarrow> jsval" where
  "num k = Num (Exact (int k))"

definition shouldSample :: "config \<Rightarrow> nat \<Rightarrow> bool" where
  "shouldSample c row =
     (c_mode c = QFull \<or>
      (c_mode c = Sampling \<and>
       (row mod samplingInterval c = 0 \<or> row = 0 \<or> int row = int (c_n c) - 1)))"

text \<open>The blocks of statements the two solvers share, each as a state update.\<close>

definition found_solution :: "config \<Rightarrow> search \<Rightarrow> bool \<times> search" where
  "found_solution c s =
     (let s1 = s\<lparr>solutions := solutions s @ [board s]\<rparr>;
          s2 = push \<lparr>kind = SolutionFound,
                     payload = [(''board'', board_val (board s1)), (''n'', num (c_n c)),
                                (''solutionNumber'', num (length (solutions s1)))],
                     codeLine = 16\<rparr> s1
      in (int (length (solutions s2)) \<ge> c_maxSolutions c, s2))"

definition step_limit :: "config \<Rightarrow> search \<Rightarrow> bool \<times> search" where
  "step_limit c s =
     (let s1 = s\<lparr>stepCount := stepCount s + 1\<rparr>
      in (True, push \<lparr>kind = StepLimit,
                      payload = [(''n'', num (c_n c)),
                                 (''solutionsFound'', num (length (solutions s1)))],
                      codeLine = 0\<rparr> s1))"

definition enter_row :: "config \<Rightarrow> nat \<Rightarrow> search \<Rightarrow> search" where
  "enter_row c row s =
     (let s1 = s\<lparr>stepCount := stepCount s + 1\<rparr>
      in if shouldSample c row then
           push \<lparr>kind = TryRow,
                 payload = [(''row'', num row), (''board'', board_val (board s1)),
                            (''n'', num (c_n c))],
                 codeLine = 14\<rparr> s1
         else s1)"

definition row_col_step :: "kind \<Rightarrow> int \<Rightarrow> config \<Rightarrow> nat \<Rightarrow> nat \<Rightarrow> search \<Rightarrow> step" where
  "row_col_step k line c row col s =
     \<lparr>kind = k,
      payload = [(''row'', num row), (''col'', num col), (''board'', board_val (board s)),
                 (''n'', num (c_n c))],
      codeLine = line\<rparr>"

definition place_queen :: "config \<Rightarrow> nat \<Rightarrow> nat \<Rightarrow> search \<Rightarrow> search" where
  "place_queen c row col s =
     (let s1 = s\<lparr>board := arr_set (board s) row (int col)\<rparr>
      in if shouldSample c row then push (row_col_step PlaceQueen 22 c row col s1) s1 else s1)"

definition backtrack :: "config \<Rightarrow> nat \<Rightarrow> nat \<Rightarrow> search \<Rightarrow> search" where
  "backtrack c row col s =
     (let s1 = s\<lparr>board := arr_set (board s) row (- 1)\<rparr>
      in if shouldSample c row then push (row_col_step Backtrack 24 c row col s1) s1 else s1)"

function solveBitmask ::
    "config \<Rightarrow> nat \<Rightarrow> 32 word \<Rightarrow> 32 word \<Rightarrow> 32 word \<Rightarrow> search \<Rightarrow> bool \<times> search"
  and bitmask_cols ::
    "config \<Rightarrow> nat \<Rightarrow> 32 word \<Rightarrow> 32 word \<Rightarrow> 32 word \<Rightarrow> nat \<Rightarrow> search \<Rightarrow> bool \<times> search"
where
  "solveBitmask c row cols diag1 diag2 s =
     (if row = c_n c then found_solution c s
      else if stepCount s > MAX_STEPS c then step_limit c s
      else bitmask_cols c row cols diag1 diag2 0 (enter_row c row s))"
| "bitmask_cols c row cols diag1 diag2 col s =
     (if col < c_n c then
        (if isSafeBitmask row col cols diag1 diag2 then
           (let newCols = cols OR shl1 (int col);
                newDiag1 = diag1 OR shl1 (int row - int col + MAX_N);
                newDiag2 = diag2 OR shl1 (int row + int col);
                (found, s1) = solveBitmask c (row + 1) newCols newDiag1 newDiag2
                                (place_queen c row col s)
            in if found then (True, s1)
               else bitmask_cols c row cols diag1 diag2 (col + 1) (backtrack c row col s1))
         else bitmask_cols c row cols diag1 diag2 (col + 1) s)
      else (False, s))"
  by pat_completeness auto

text \<open>
  Termination. A call that gets past the two tests at the top of a solver increments
  \<open>stepCount\<close> while it is at most \<open>MAX_STEPS\<close>, no statement decreases it, and the
  column loop counts up to \<open>n\<close>.
\<close>

lemma push_stepCount [simp]: "stepCount (push x s) = stepCount s"
  by (simp add: push_def)

lemma enter_row_stepCount [simp]: "stepCount (enter_row c row s) = Suc (stepCount s)"
  by (simp add: enter_row_def Let_def)

lemma place_queen_stepCount [simp]: "stepCount (place_queen c row col s) = stepCount s"
  by (simp add: place_queen_def Let_def)

lemma backtrack_stepCount [simp]: "stepCount (backtrack c row col s) = stepCount s"
  by (simp add: backtrack_def Let_def)

lemma found_solution_stepCount [simp]: "stepCount (snd (found_solution c s)) = stepCount s"
  by (simp add: found_solution_def Let_def)

lemma step_limit_stepCount [simp]: "stepCount (snd (step_limit c s)) = Suc (stepCount s)"
  by (simp add: step_limit_def Let_def)

lemma bitmask_stepCount_dom:
  "solveBitmask_bitmask_cols_dom (Inl (c, row, cols, diag1, diag2, s)) \<Longrightarrow>
     stepCount s \<le> stepCount (snd (solveBitmask c row cols diag1 diag2 s))"
  "solveBitmask_bitmask_cols_dom (Inr (c, row, cols, diag1, diag2, col, s)) \<Longrightarrow>
     stepCount s \<le> stepCount (snd (bitmask_cols c row cols diag1 diag2 col s))"
proof (induct rule: solveBitmask_bitmask_cols.pinduct)
  case (1 c row cols diag1 diag2 s)
  show ?case
  proof (cases "row = c_n c \<or> MAX_STEPS c < stepCount s")
    case True
    then show ?thesis
      by (subst solveBitmask.psimps [OF "1.hyps"(1)]) auto
  next
    case False
    then have ne: "row \<noteq> c_n c" and le: "\<not> MAX_STEPS c < stepCount s" by simp_all
    from "1.hyps"(2) [OF ne le] ne le show ?thesis
      by (subst solveBitmask.psimps [OF "1.hyps"(1)]) simp
  qed
next
  case (2 c row cols diag1 diag2 col s)
  show ?case
  proof (cases "col < c_n c")
    case False
    then show ?thesis by (subst bitmask_cols.psimps [OF "2.hyps"(1)]) simp
  next
    case lt: True
    show ?thesis
    proof (cases "isSafeBitmask row col cols diag1 diag2")
      case False
      then show ?thesis
        using lt "2.hyps"(4) by (subst bitmask_cols.psimps [OF "2.hyps"(1)]) simp
    next
      case safe: True
      define r where "r = solveBitmask c (row + 1) (cols OR shl1 (int col))
          (diag1 OR shl1 (int row - int col + MAX_N)) (diag2 OR shl1 (int row + int col))
          (place_queen c row col s)"
      have a: "stepCount s \<le> stepCount (snd r)"
        unfolding r_def using "2.hyps"(2) [OF lt safe refl refl refl] by simp
      show ?thesis
      proof (cases "fst r")
        case True
        then show ?thesis using a lt safe
          by (subst bitmask_cols.psimps [OF "2.hyps"(1)])
             (simp add: Let_def case_prod_beta r_def)
      next
        case False
        have "stepCount (backtrack c row col (snd r))
            \<le> stepCount (snd (bitmask_cols c row cols diag1 diag2 (col + 1) (backtrack c row col (snd r))))"
          unfolding r_def
          apply (rule "2.hyps"(3) [OF lt safe refl refl refl refl])
           apply (rule prod.collapse)
          using False apply (simp add: r_def)
          done
        then show ?thesis using a lt safe False
          by (subst bitmask_cols.psimps [OF "2.hyps"(1)])
             (simp add: Let_def case_prod_beta r_def)
      qed
    qed
  qed
qed

termination solveBitmask
  apply (relation "inv_image (less_than <*lex*> less_than <*lex*> less_than)
     (\<lambda>x. case x of
        Inl (c, row, cols, diag1, diag2, s) \<Rightarrow> (MAX_STEPS c + 2 - stepCount s, 0, 0)
      | Inr (c, row, cols, diag1, diag2, col, s) \<Rightarrow> (MAX_STEPS c + 2 - stepCount s, 1, c_n c - col))")
  subgoal by (intro wf_inv_image wf_lex_prod wf_less_than)
  subgoal by auto
  subgoal by auto
  subgoal premises p for c row cols diag1 diag2 col s xb xc xd xe xf y
  proof -
    have "snd (solveBitmask c (row + 1) xb xc xd (place_queen c row col s)) = y"
      using p(6,7) by (metis snd_conv)
    moreover have "stepCount (place_queen c row col s)
        \<le> stepCount (snd (solveBitmask c (row + 1) xb xc xd (place_queen c row col s)))"
      by (rule bitmask_stepCount_dom(1) [OF p(9)])
    ultimately have "stepCount s \<le> stepCount y" by simp
    then show ?thesis using p(1) by auto
  qed
  subgoal by auto
  done

declare solveBitmask.simps [simp del] bitmask_cols.simps [simp del]


text \<open>
  The traditional solver. \<open>check_col\<close> is the part of the column loop before
  \<open>if (safe)\<close>: the \<open>try-col\<close> step, the call of \<open>isSafeTraditional\<close> and the
  \<open>check-safe\<close> step.
\<close>

definition check_col :: "config \<Rightarrow> nat \<Rightarrow> nat \<Rightarrow> search \<Rightarrow> bool \<times> search" where
  "check_col c row col s =
     (let shouldCheck = (c_mode c = QFull \<or> col mod (max 1 (c_n c div 4)) = 0 \<or> col = 0
                         \<or> int col = int (c_n c) - 1);
          s1 = (if shouldCheck \<and> shouldSample c row
                then push (row_col_step TryCol 20 c row col s) s else s);
          safe = isSafeTraditional row col (board s1);
          s2 = (if shouldCheck \<and> shouldSample c row
                then push \<lparr>kind = CheckSafe,
                           payload = [(''row'', num row), (''col'', num col), (''safe'', Bool safe),
                                      (''board'', board_val (board s1)), (''n'', num (c_n c))],
                           codeLine = 21\<rparr> s1
                else s1)
      in (safe, s2))"

function solveTraditional :: "config \<Rightarrow> nat \<Rightarrow> search \<Rightarrow> bool \<times> search"
  and traditional_cols :: "config \<Rightarrow> nat \<Rightarrow> nat \<Rightarrow> search \<Rightarrow> bool \<times> search"
where
  "solveTraditional c row s =
     (if row = c_n c then found_solution c s
      else if stepCount s > MAX_STEPS c then step_limit c s
      else traditional_cols c row 0 (enter_row c row s))"
| "traditional_cols c row col s =
     (if col < c_n c then
        (let (safe, s1) = check_col c row col s
         in if safe then
              (let (found, s2) = solveTraditional c (row + 1) (place_queen c row col s1)
               in if found then (True, s2)
                  else traditional_cols c row (col + 1) (backtrack c row col s2))
            else traditional_cols c row (col + 1) s1)
      else (False, s))"
  by pat_completeness auto

lemma check_col_stepCount [simp]: "stepCount (snd (check_col c row col s)) = stepCount s"
  by (simp add: check_col_def Let_def)

lemma traditional_stepCount_dom:
  "solveTraditional_traditional_cols_dom (Inl (c, row, s)) \<Longrightarrow>
     stepCount s \<le> stepCount (snd (solveTraditional c row s))"
  "solveTraditional_traditional_cols_dom (Inr (c, row, col, s)) \<Longrightarrow>
     stepCount s \<le> stepCount (snd (traditional_cols c row col s))"
proof (induct rule: solveTraditional_traditional_cols.pinduct)
  case (1 c row s)
  show ?case
  proof (cases "row = c_n c \<or> MAX_STEPS c < stepCount s")
    case True
    then show ?thesis
      by (subst solveTraditional.psimps [OF "1.hyps"(1)]) auto
  next
    case False
    then have ne: "row \<noteq> c_n c" and le: "\<not> MAX_STEPS c < stepCount s" by simp_all
    from "1.hyps"(2) [OF ne le] ne le show ?thesis
      by (subst solveTraditional.psimps [OF "1.hyps"(1)]) simp
  qed
next
  case (2 c row col s)
  show ?case
  proof (cases "col < c_n c")
    case False
    then show ?thesis by (subst traditional_cols.psimps [OF "2.hyps"(1)]) simp
  next
    case lt: True
    define k where "k = check_col c row col s"
    have ks: "stepCount (snd k) = stepCount s" by (simp add: k_def)
    have kc: "(fst k, snd k) = check_col c row col s" by (simp add: k_def)
    show ?thesis
    proof (cases "fst k")
      case False
      have "stepCount (snd k) \<le> stepCount (snd (traditional_cols c row (col + 1) (snd k)))"
        by (rule "2.hyps"(4) [OF lt refl kc False])
      then show ?thesis
        using lt ks False
        by (subst traditional_cols.psimps [OF "2.hyps"(1)])
           (simp add: Let_def case_prod_beta k_def)
    next
      case safe: True
      define r where "r = solveTraditional c (row + 1) (place_queen c row col (snd k))"
      have a: "stepCount s \<le> stepCount (snd r)"
        unfolding r_def using "2.hyps"(2) [OF lt refl kc safe] ks by simp
      have rc: "(fst r, snd r) = solveTraditional c (row + 1) (place_queen c row col (snd k))"
        by (simp add: r_def)
      show ?thesis
      proof (cases "fst r")
        case True
        then show ?thesis using a lt safe
          by (subst traditional_cols.psimps [OF "2.hyps"(1)])
             (simp add: Let_def case_prod_beta r_def k_def)
      next
        case False
        have "stepCount (backtrack c row col (snd r))
            \<le> stepCount (snd (traditional_cols c row (col + 1) (backtrack c row col (snd r))))"
          by (rule "2.hyps"(3) [OF lt refl kc safe refl rc False])
        then show ?thesis using a lt safe False
          by (subst traditional_cols.psimps [OF "2.hyps"(1)])
             (simp add: Let_def case_prod_beta r_def k_def)
      qed
    qed
  qed
qed

termination solveTraditional
  apply (relation "inv_image (less_than <*lex*> less_than <*lex*> less_than)
     (\<lambda>x. case x of
        Inl (c, row, s) \<Rightarrow> (MAX_STEPS c + 2 - stepCount s, 0, 0)
      | Inr (c, row, col, s) \<Rightarrow> (MAX_STEPS c + 2 - stepCount s, 1, c_n c - col))")
  subgoal by (intro wf_inv_image wf_lex_prod wf_less_than)
  subgoal by auto
  subgoal premises p for c row col s x xa y
  proof -
    have "check_col c row col s = (xa, y)" using p by simp
    then have "snd (check_col c row col s) = y" by simp
    then have "stepCount y = stepCount s" using check_col_stepCount [of c row col s] by simp
    then show ?thesis by auto
  qed
  subgoal premises p for c row col s x xa y xb xc ya
  proof -
    have "check_col c row col s = (xa, y)" using p by simp
    then have "snd (check_col c row col s) = y" by simp
    then have a: "stepCount y = stepCount s" using check_col_stepCount [of c row col s] by simp
    have "solveTraditional c (row + 1) (place_queen c row col y) = (xc, ya)" using p by simp
    then have "snd (solveTraditional c (row + 1) (place_queen c row col y)) = ya" by simp
    moreover have "stepCount (place_queen c row col y)
        \<le> stepCount (snd (solveTraditional c (row + 1) (place_queen c row col y)))"
      by (rule traditional_stepCount_dom(1)) (use p in simp)
    ultimately have "stepCount s \<le> stepCount ya" using a by simp
    then show ?thesis using p(1) by auto
  qed
  subgoal premises p for c row col s x xa y
  proof -
    have "check_col c row col s = (xa, y)" using p by simp
    then have "snd (check_col c row col s) = y" by simp
    then have "stepCount y = stepCount s" using check_col_stepCount [of c row col s] by simp
    then show ?thesis using p(1) by auto
  qed
  done

declare solveTraditional.simps [simp del] traditional_cols.simps [simp del]


definition nq_mode_name :: "nq_mode \<Rightarrow> string" where
  "nq_mode_name m =
     (case m of QFull \<Rightarrow> ''full'' | Sampling \<Rightarrow> ''sampling'' | FastSolve \<Rightarrow> ''fast-solve'')"

text \<open>
  \<open>nQueensRunner.generateSteps\<close>. \<open>Array(n)\<close> throws a RangeError for a negative
  length, before the first step is pushed.
\<close>

definition nq_generateSteps :: "NQueensInput \<Rightarrow> error + step list" where
  "nq_generateSteps input =
     (let n = min (q_n input) MAX_N;
          maxSolutions = (case q_maxSolutions input of None \<Rightarrow> 1
                          | Some k \<Rightarrow> if k = 0 then 1 else k);
          useBitmask = (case q_useBitmask input of Some b \<Rightarrow> b | None \<Rightarrow> n > 12);
          m = (case q_mode input of
                 Some m \<Rightarrow> m
               | None \<Rightarrow> if n \<le> 12 then QFull else if n \<le> 16 then Sampling else FastSolve)
      in
      if n < 0 then Inl RangeError
      else
        (let c = \<lparr>c_n = nat n, c_maxSolutions = maxSolutions, c_mode = m,
                  MAX_STEPS = (if m = QFull then 100000 else if m = Sampling then 50000
                               else 10000),
                  samplingInterval = (if m = Sampling then max 1 (nat n div 4) else 1)\<rparr>;
             s0 = \<lparr>emitted =
                     [\<lparr>kind = Init,
                       payload = [(''n'', Num (Exact n)),
                                  (''board'', board_val (replicate (nat n) (Some (- 1)))),
                                  (''mode'', Str (nq_mode_name m)),
                                  (''maxSolutions'', Num (Exact maxSolutions)),
                                  (''useBitmask'', Bool useBitmask)],
                       codeLine = 0\<rparr>],
                   board = replicate (nat n) (Some (- 1)),
                   solutions = [],
                   stepCount = 0\<rparr>;
             (found, s1) = (if useBitmask \<and> m \<noteq> QFull then solveBitmask c 0 0 0 0 s0
                            else solveTraditional c 0 s0);
             s2 = (if length (solutions s1) = 0 then
                     push \<lparr>kind = NoSolution, payload = [(''n'', Num (Exact n))],
                           codeLine = 29\<rparr> s1
                   else s1);
             s3 = push \<lparr>kind = Complete,
                        payload = [(''board'', board_val (if length (solutions s2) > 0
                                                          then hd (solutions s2) else board s2)),
                                   (''n'', Num (Exact n)),
                                   (''solutionFound'', Bool (length (solutions s2) > 0)),
                                   (''solutionsCount'', num (length (solutions s2))),
                                   (''allSolutions'', Arr (map board_val (solutions s2)))],
                        codeLine = 30\<rparr> s2
         in Inr (emitted s3)))"

definition nq_validateInput :: "NQueensInput \<Rightarrow> validation" where
  "nq_validateInput input =
     (if q_n input = 0 \<or> q_n input < 1 then
        \<lparr>valid = False, error = Some ''N must be a positive integer''\<rparr>
      else if q_n input > MAX_N then
        \<lparr>valid = False, error = Some ''N must be at most 20 for safety''\<rparr>
      else if q_maxSolutions input \<noteq> None
              \<and> (the (q_maxSolutions input) < 1 \<or> the (q_maxSolutions input) > 100) then
        \<lparr>valid = False, error = Some ''Max solutions must be between 1 and 100''\<rparr>
      else \<lparr>valid = True, error = None\<rparr>)"

section \<open>Readers and reference functions used in the statements\<close>

text \<open>The Fibonacci numbers by their recurrence: the reference the strategies are compared with.\<close>

fun fib :: "nat \<Rightarrow> int" where
  "fib 0 = 0"
| "fib (Suc 0) = 1"
| "fib (Suc (Suc k)) = fib (Suc k) + fib k"

text \<open>The integer a table cell or a payload value holds, whatever its representation.\<close>

definition cell_int :: "cell \<Rightarrow> int option" where
  "cell_int c =
     (case c of Number (Exact i) \<Rightarrow> Some i | Number Untracked \<Rightarrow> None | BigInt i \<Rightarrow> Some i)"

definition jsval_int :: "jsval \<Rightarrow> int option" where
  "jsval_int v =
     (case v of Num (Exact i) \<Rightarrow> Some i | Big i \<Rightarrow> Some i | _ \<Rightarrow> None)"

definition result_int :: "step \<Rightarrow> int option" where
  "result_int s = (case field ''result'' s of None \<Rightarrow> None | Some v \<Rightarrow> jsval_int v)"

definition terminal :: "kind \<Rightarrow> bool" where
  "terminal k = (k = Complete \<or> k = NoSolution \<or> k = StepLimit)"

definition count_kind :: "kind \<Rightarrow> step list \<Rightarrow> nat" where
  "count_kind k t = length (filter (\<lambda>s. kind s = k) t)"

text \<open>
  What a solver adds to the trace: steps that carry the board size of the configuration
  and are none of \<open>init\<close>, \<open>no-solution\<close>, \<open>complete\<close>. \<open>grows c s t\<close>: the steps
  of \<open>t\<close> are those of \<open>s\<close> followed by such steps.
\<close>

definition solver_step :: "config \<Rightarrow> step \<Rightarrow> bool" where
  "solver_step c x =
     (field ''n'' x = Some (num (c_n c))
      \<and> kind x \<noteq> Init \<and> kind x \<noteq> NoSolution \<and> kind x \<noteq> Complete)"

definition grows :: "config \<Rightarrow> search \<Rightarrow> search \<Rightarrow> bool" where
  "grows c s t = (\<exists>ys. emitted t = emitted s @ ys \<and> list_all (solver_step c) ys)"

text \<open>
  The pieces of \<open>nq_generateSteps\<close> by name: the resolved input, the configuration and
  initial state handed to the solver, the state the solver leaves, and the steps pushed
  after it.
\<close>

definition effective_n :: "NQueensInput \<Rightarrow> int" where
  "effective_n input = min (q_n input) MAX_N"

definition effective_maxSolutions :: "NQueensInput \<Rightarrow> int" where
  "effective_maxSolutions input =
     (case q_maxSolutions input of None \<Rightarrow> 1 | Some k \<Rightarrow> if k = 0 then 1 else k)"

definition effective_mode :: "NQueensInput \<Rightarrow> nq_mode" where
  "effective_mode input =
     (case q_mode input of
        Some m \<Rightarrow> m
      | None \<Rightarrow> if effective_n input \<le> 12 then QFull
                  else if effective_n input \<le> 16 then Sampling else FastSolve)"

definition effective_useBitmask :: "NQueensInput \<Rightarrow> bool" where
  "effective_useBitmask input =
     (case q_useBitmask input of Some b \<Rightarrow> b | None \<Rightarrow> effective_n input > 12)"

definition nq_config :: "NQueensInput \<Rightarrow> config" where
  "nq_config input =
     \<lparr>c_n = nat (effective_n input), c_maxSolutions = effective_maxSolutions input,
      c_mode = effective_mode input,
      MAX_STEPS = (if effective_mode input = QFull then 100000
                   else if effective_mode input = Sampling then 50000 else 10000),
      samplingInterval = (if effective_mode input = Sampling
                          then max 1 (nat (effective_n input) div 4) else 1)\<rparr>"

definition nq_init :: "NQueensInput \<Rightarrow> search" where
  "nq_init input =
     \<lparr>emitted =
        [\<lparr>kind = Init,
          payload = [(''n'', Num (Exact (effective_n input))),
                     (''board'', board_val (replicate (nat (effective_n input)) (Some (- 1)))),
                     (''mode'', Str (nq_mode_name (effective_mode input))),
                     (''maxSolutions'', Num (Exact (effective_maxSolutions input))),
                     (''useBitmask'', Bool (effective_useBitmask input))],
          codeLine = 0\<rparr>],
      board = replicate (nat (effective_n input)) (Some (- 1)),
      solutions = [],
      stepCount = 0\<rparr>"

definition nq_solved :: "NQueensInput \<Rightarrow> search" where
  "nq_solved input =
     snd (if effective_useBitmask input \<and> effective_mode input \<noteq> QFull
          then solveBitmask (nq_config input) 0 0 0 0 (nq_init input)
          else solveTraditional (nq_config input) 0 (nq_init input))"

definition nq_tail :: "NQueensInput \<Rightarrow> step list" where
  "nq_tail input =
     (let s1 = nq_solved input in
      (if solutions s1 = [] then
         [\<lparr>kind = NoSolution, payload = [(''n'', Num (Exact (effective_n input)))],
           codeLine = 29\<rparr>]
       else []) @
      [\<lparr>kind = Complete,
        payload = [(''board'', board_val (if solutions s1 = [] then board s1
                                           else hd (solutions s1))),
                   (''n'', Num (Exact (effective_n input))),
                   (''solutionFound'', Bool (solutions s1 \<noteq> [])),
                   (''solutionsCount'', num (length (solutions s1))),
                   (''allSolutions'', Arr (map board_val (solutions s1)))],
        codeLine = 30\<rparr>])"

text \<open>
  Two search states, or two configurations, that differ only in what is recorded: the
  steps so far, the mode and the sampling interval.
\<close>

definition same_search :: "search \<Rightarrow> search \<Rightarrow> bool" where
  "same_search s t = (board s = board t \<and> solutions s = solutions t \<and> stepCount s = stepCount t)"

definition same_config :: "config \<Rightarrow> config \<Rightarrow> bool" where
  "same_config c d =
     (c_n c = c_n d \<and> c_maxSolutions c = c_maxSolutions d \<and> MAX_STEPS c = MAX_STEPS d)"

text \<open>
  A configuration that records nothing but solutions, and the initial state with an
  empty trace: the search of a board of size \<open>n\<close> on its own.
\<close>

definition quiet :: "nat \<Rightarrow> int \<Rightarrow> nat \<Rightarrow> config" where
  "quiet n k maxsteps = \<lparr>c_n = n, c_maxSolutions = k, c_mode = FastSolve, MAX_STEPS = maxsteps,
                    samplingInterval = 1\<rparr>"

definition blank :: "nat \<Rightarrow> search" where
  "blank n = \<lparr>emitted = [], board = replicate n (Some (- 1)), solutions = [], stepCount = 0\<rparr>"

text \<open>
  The solutions either solver finds on its own, with a step limit \<open>maxsteps\<close>.
\<close>

definition quiet_search :: "bool \<Rightarrow> nat \<Rightarrow> int \<Rightarrow> nat \<Rightarrow> int option list list" where
  "quiet_search bitmask n k maxsteps =
     solutions (snd (if bitmask then solveBitmask (quiet n k maxsteps) 0 0 0 0 (blank n)
                     else solveTraditional (quiet n k maxsteps) 0 (blank n)))"

text \<open>
  What a returned trace reports: a field of its last step, and the kinds of its last
  two steps.
\<close>

definition reported :: "string \<Rightarrow> error + step list \<Rightarrow> jsval option" where
  "reported name r = (case r of Inl e \<Rightarrow> None | Inr t \<Rightarrow> field name (last t))"

definition ending :: "error + step list \<Rightarrow> kind list" where
  "ending r = (case r of Inl e \<Rightarrow> [] | Inr t \<Rightarrow> map kind (drop (length t - 2) t))"

text \<open>
  The cell the dp-array strategy holds at index \<open>j\<close> when run for \<open>n\<close> (a BigInt when
  \<open>n > 78\<close>, a number otherwise), and a table whose first \<open>k\<close> slots hold these cells.
\<close>

definition cellfib :: "int \<Rightarrow> nat \<Rightarrow> cell" where
  "cellfib n j = (if n > 78 then BigInt (fib j) else Number (Exact (fib j)))"

definition filled :: "int \<Rightarrow> nat \<Rightarrow> cell option list \<Rightarrow> bool" where
  "filled n k dp = (k \<le> length dp \<and> take k dp = map (\<lambda>j. Some (cellfib n j)) [0..<k])"

text \<open>The integer at index \<open>i\<close> of the table the dp-array strategy returns, if any.\<close>

definition table_value :: "error + cell option list \<times> step list \<Rightarrow> int \<Rightarrow> int option" where
  "table_value r i =
     (case r of
        Inl e \<Rightarrow> None
      | Inr (dp, out) \<Rightarrow> (case arr_get dp i of None \<Rightarrow> None | Some c \<Rightarrow> cell_int c))"

text \<open>
  The mode, strategy and detail level \<open>fib_generateSteps\<close> resolves from its input, and
  its first step.
\<close>

definition resolved_mode :: "FibonacciInput \<Rightarrow> fib_mode" where
  "resolved_mode input =
     (case f_mode input of
        Some m \<Rightarrow> m
      | None \<Rightarrow> if f_n input \<le> 50 then Full else if f_n input \<le> 10000 then Condensed
                  else ComputationOnly)"

definition resolved_strategy :: "FibonacciInput \<Rightarrow> strategy" where
  "resolved_strategy input = (case f_strategy input of None \<Rightarrow> DpArray | Some s \<Rightarrow> s)"

definition resolved_detailLevel :: "FibonacciInput \<Rightarrow> int" where
  "resolved_detailLevel input =
     (case f_detailLevel input of None \<Rightarrow> 50 | Some d \<Rightarrow> if d = 0 then 50 else d)"

definition fib_init :: "FibonacciInput \<Rightarrow> step list" where
  "fib_init input =
     [\<lparr>kind = Init,
       payload = [(''n'', Num (Exact (f_n input))),
                  (''mode'', Str (fib_mode_name (resolved_mode input))),
                  (''strategy'', Str (strategy_name (resolved_strategy input))),
                  (''estimatedMemory'', Num (Exact (f_n input * 8))),
                  (''estimatedTime'', Num (if f_n input = 0 then Exact 0 else Untracked)),
                  (''warning'', if f_n input > MAX_DP_ARRAY_SIZE
                     then Str ''Large input detected. Using computation-only mode.''
                     else Undefined)],
       codeLine = 0\<rparr>]"

text \<open>
  The sampling test of the loops (the dp-array loop also samples every index in full
  mode), and the number of steps of a kind in a returned trace.
\<close>

definition sampled :: "rate \<Rightarrow> int \<Rightarrow> int \<Rightarrow> bool" where
  "sampled r n i = (js_rem_is_zero i r \<or> i = n \<or> i \<le> 10)"

definition emitted_count :: "kind \<Rightarrow> error + step list \<Rightarrow> nat" where
  "emitted_count k r = (case r of Inl e \<Rightarrow> 0 | Inr t \<Rightarrow> count_kind k t)"

section \<open>Properties of the playback hook\<close>

subsection \<open>Whole numbers are added exactly\<close>

lemma bits_0 [simp]: "bits 0 = 0"
  by (simp add: bits.simps [of 0])

lemma bits_Suc_0 [simp]: "bits (Suc 0) = Suc 0"
  by (simp add: bits.simps [of "Suc 0"])

lemma bits_Bit0 [simp]: "bits (numeral (Num.Bit0 k)) = Suc (bits (numeral k))"
  by (subst bits.simps) simp

lemma bits_Bit1 [simp]: "bits (numeral (Num.Bit1 k)) = Suc (bits (numeral k))"
  by (subst bits.simps) simp

lemma bits_bound: "n < 2 ^ m \<Longrightarrow> bits n \<le> m"
proof (induction m arbitrary: n)
  case 0
  then show ?case by simp
next
  case (Suc m)
  show ?case
  proof (cases "n = 0")
    case True
    then show ?thesis by simp
  next
    case False
    have "n div 2 < 2 ^ m" using Suc.prems by simp
    from Suc.IH [OF this] False show ?thesis by (subst bits.simps) simp
  qed
qed

lemma bits_pos: "0 < n \<Longrightarrow> 0 < bits n"
  by (subst bits.simps) simp

lemma roundTiesToEven_of_int [simp]: "roundTiesToEven (of_int m) = m"
  by (simp add: roundTiesToEven_def)

lemma binary64_of_int:
  assumes "\<bar>k\<bar> < 2 ^ 53"
  shows "binary64 (of_int k) = Val (of_int k)"
proof (cases "k = 0")
  case True
  then show ?thesis by (simp add: binary64_def)
next
  case False
  define n where "n = nat \<bar>k\<bar>"
  define a :: real where "a = \<bar>of_int k\<bar>"
  have n: "0 < n" "n < 2 ^ 53" "a = real n" "\<bar>k\<bar> = int n"
    using False assms by (simp_all add: n_def a_def nat_less_iff)
  define e where "e = int (bits n) - 1"
  have e: "0 \<le> e" "e \<le> 52"
    using bits_pos [OF n(1)] bits_bound [OF n(2)] by (simp_all add: e_def)
  have il: "ilog2 a = e"
    using n by (simp add: ilog2_def e_def)
  define j where "j = nat (52 - e)"
  have q: "pow2 (max e (- 1022) - 52) = 1 / 2 ^ j"
    using e by (auto simp: pow2_def j_def max_def)
  have m: "a / (1 / 2 ^ j) = of_int (int n * 2 ^ j)"
    by (simp add: n(3))
  have r: "of_int (roundTiesToEven (a / (1 / 2 ^ j))) * (1 / 2 ^ j) = a"
    unfolding m roundTiesToEven_of_int by (simp add: n(3))
  have "a < 2 ^ 53" using n by simp
  also have "(2::real) ^ 53 \<le> 2 ^ 1024" by (rule power_increasing) simp_all
  finally have big: "\<not> pow2 1024 \<le> a" by (simp add: pow2_def)
  have s: "(if 0 < (of_int k :: real) then a else - a) = of_int k"
    by (simp add: a_def)
  have ne: "(of_int k :: real) \<noteq> 0" using False by simp
  show ?thesis
    unfolding binary64_def Let_def a_def [symmetric] il q r
    using big s ne by simp
qed

lemma add_whole:
  assumes "\<bar>k + d\<bar> < 2 ^ 53"
  shows "js_add (Val (of_int k)) (of_int d) = Val (of_int (k + d))"
  using binary64_of_int [OF assms] by (simp add: js_add_def)


subsection \<open>The cursor under whole moves\<close>

lemma at_indexI:
  assumes "currentStep st = Val (of_int k)"
    and "if steps st = [] then k = 0 else 0 \<le> k \<and> k < int (length (steps st))"
  shows "at_index st"
  using assms by (auto simp: at_index_def whole_def cursor_in_range_def in_trace_def split: if_splits)

lemma at_indexE:
  assumes "at_index st"
  obtains k where "currentStep st = Val (of_int k)"
    and "if steps st = [] then k = 0 else 0 \<le> k \<and> k < int (length (steps st))"
proof -
  from assms obtain x where x: "currentStep st = Val x" "x = of_int \<lfloor>x\<rfloor>"
    and r: "if steps st = [] then x = 0 else 0 \<le> x \<and> x < real (length (steps st))"
    by (auto simp: at_index_def whole_def cursor_in_range_def in_trace_def split: double.splits)
  have "currentStep st = Val (of_int \<lfloor>x\<rfloor>)" using x by simp
  moreover have "if steps st = [] then \<lfloor>x\<rfloor> = 0 else 0 \<le> \<lfloor>x\<rfloor> \<and> \<lfloor>x\<rfloor> < int (length (steps st))"
    using r x(2) by (auto split: if_splits simp: floor_less_iff)
  ultimately show thesis by (rule that)
qed

lemma goToStep_whole:
  assumes "totalSteps st = int (length (steps st))"
  shows "currentStep (goToStep (Val (of_int i)) st)
           = Val (of_int (clamp_index i (length (steps st))))"
    and "currentStep (goToStep PlusInfinity st)
           = Val (of_int (if steps st = [] then 0 else int (length (steps st)) - 1))"
    and "currentStep (goToStep MinusInfinity st) = Val 0"
  using assms
  by (cases "steps st"; auto simp: goToStep_def Math_min_def Math_max_def clamp_index_def)+

lemma nextStep_whole:
  assumes "totalSteps st = int (length (steps st))" "length (steps st) < 2 ^ 32"
    and "currentStep st = Val (of_int k)"
    and "if steps st = [] then k = 0 else 0 \<le> k \<and> k < int (length (steps st))"
  shows "currentStep (nextStep st)
           = Val (of_int (if k + 1 < int (length (steps st)) then k + 1 else k))"
proof (cases "k + 1 < int (length (steps st))")
  case True
  then have "\<bar>k + 1\<bar> < 2 ^ 53" using assms(2,4) by (auto split: if_splits)
  from add_whole [OF this] True assms(1,3) show ?thesis
    by (simp add: nextStep_def js_ge_def)
next
  case False
  then show ?thesis using assms(1,3) by (simp add: nextStep_def js_ge_def)
qed

lemma prevStep_whole:
  assumes "length (steps st) < 2 ^ 32"
    and "currentStep st = Val (of_int k)"
    and "if steps st = [] then k = 0 else 0 \<le> k \<and> k < int (length (steps st))"
  shows "currentStep (prevStep st) = Val (of_int (if 0 < k then k - 1 else 0))"
proof -
  have "\<bar>k + (- 1)\<bar> < 2 ^ 53" using assms(1,3) by (auto split: if_splits)
  from add_whole [OF this] assms(2) show ?thesis
    by (simp add: prevStep_def Math_max_def)
qed


lemma moves_keep_trace [simp]:
  "steps (goToStep a st) = steps st" "totalSteps (goToStep a st) = totalSteps st"
  "steps (nextStep st) = steps st" "totalSteps (nextStep st) = totalSteps st"
  "steps (prevStep st) = steps st" "totalSteps (prevStep st) = totalSteps st"
  "steps (autoPlay st) = steps st" "totalSteps (autoPlay st) = totalSteps st"
  by (simp_all add: goToStep_def nextStep_def prevStep_def autoPlay_def)

lemma at_index_flags [simp]:
  "at_index (st\<lparr>isPlaying := b\<rparr>) = at_index st"
  "at_index (st\<lparr>isPaused := b\<rparr>) = at_index st"
  "at_index (st\<lparr>speed := sp\<rparr>) = at_index st"
  "at_index (st\<lparr>result := res\<rparr>) = at_index st"
  by (simp_all add: at_index_def cursor_in_range_def)

lemma apply_call_keeps_index:
  assumes t: "totalSteps st = int (length (steps st))"
    and l: "length (steps st) < 2 ^ 32"
    and a: "at_index st"
    and w: "whole_move c"
  shows "totalSteps (apply_call st c) = int (length (steps (apply_call st c)))
         \<and> length (steps (apply_call st c)) < 2 ^ 32
         \<and> at_index (apply_call st c)"
proof -
  from a obtain k where k: "currentStep st = Val (of_int k)"
    and r: "if steps st = [] then k = 0 else 0 \<le> k \<and> k < int (length (steps st))"
    by (rule at_indexE)
  have n: "at_index (nextStep st)"
    by (rule at_indexI [OF nextStep_whole [OF t l k r]]) (use r in \<open>auto split: if_splits\<close>)
  show ?thesis
  proof (cases c)
    case (SetSteps new)
    then show ?thesis using w
      by (simp add: setSteps_def at_index_def whole_def cursor_in_range_def in_trace_def
          whole_move_def)
  next
    case (GoToStep x)
    have "at_index (goToStep x st)"
    proof (cases x)
      case (Val y)
      then have "x = Val (of_int \<lfloor>y\<rfloor>)"
        using w GoToStep by (simp add: whole_move_def whole_def)
      then have "currentStep (goToStep x st)
          = Val (of_int (clamp_index \<lfloor>y\<rfloor> (length (steps st))))"
        using goToStep_whole(1) [OF t] by simp
      then show ?thesis
        by (rule at_indexI) (simp add: clamp_index_def)
    next
      case PlusInfinity
      show ?thesis
        unfolding PlusInfinity
        by (rule at_indexI [OF goToStep_whole(2) [OF t]]) (cases "steps st"; simp)
    next
      case MinusInfinity
      have "currentStep (goToStep x st) = Val (of_int 0)"
        unfolding MinusInfinity using goToStep_whole(3) [OF t] by simp
      then show ?thesis by (rule at_indexI) (cases "steps st"; simp)
    next
      case NaN
      then show ?thesis using w GoToStep by (simp add: whole_move_def whole_def)
    qed
    then show ?thesis using GoToStep t l by simp
  next
    case NextStep
    then show ?thesis using n t l by simp
  next
    case PrevStep
    have "at_index (prevStep st)"
      by (rule at_indexI [OF prevStep_whole [OF l k r]]) (use r in \<open>auto split: if_splits\<close>)
    then show ?thesis using PrevStep t l by simp
  next
    case Play
    then show ?thesis using t l a by (simp add: play_def)
  next
    case Pause
    then show ?thesis using t l a by (simp add: pause_def)
  next
    case Reset
    then show ?thesis using t l
      by (simp add: reset_def at_index_def whole_def cursor_in_range_def in_trace_def)
  next
    case (SetSpeed sp)
    then show ?thesis using t l a by (simp add: setSpeed_def)
  next
    case (SetResult res)
    then show ?thesis using t l a by (simp add: setResult_def)
  next
    case AutoPlay
    have "at_index (autoPlay st)"
      using n a by (simp add: autoPlay_def)
    then show ?thesis using AutoPlay t l by simp
  qed
qed

lemma foldl_keeps_index:
  assumes "totalSteps st = int (length (steps st))" and "length (steps st) < 2 ^ 32"
    and "at_index st" and "\<forall>c \<in> set cs. whole_move c"
  shows "totalSteps (foldl apply_call st cs) = int (length (steps (foldl apply_call st cs)))
         \<and> length (steps (foldl apply_call st cs)) < 2 ^ 32
         \<and> at_index (foldl apply_call st cs)"
  using assms
proof (induction cs arbitrary: st)
  case Nil
  then show ?case by simp
next
  case (Cons c cs)
  have w: "whole_move c" using Cons.prems(4) by simp
  from apply_call_keeps_index [OF Cons.prems(1-3) w]
  have "totalSteps (apply_call st c) = int (length (steps (apply_call st c)))"
    and "length (steps (apply_call st c)) < 2 ^ 32"
    and "at_index (apply_call st c)" by simp_all
  from Cons.IH [OF this] Cons.prems(4) show ?case by simp
qed

lemma at_index_in_range: "at_index st \<Longrightarrow> cursor_in_range st"
  by (simp add: at_index_def)

text \<open>
  After any sequence of whole moves the cursor is at an index of the loaded trace
  (0 for an empty trace), \<open>goToStep\<close> of an integer, in range or not, lands on the
  nearest index, and one more \<open>nextStep\<close> or \<open>prevStep\<close> stays inside. The calls
  are total functions with no error result.
\<close>

lemma whole_moves_keep_cursor_in_range:
  assumes "\<forall>c \<in> set cs. whole_move c"
  shows "at_index (session cs) \<and> cursor_in_range (session cs)
         \<and> totalSteps (session cs) = int (length (steps (session cs)))
         \<and> currentStep (goToStep (Val (of_int i)) (session cs))
             = Val (of_int (clamp_index i (length (steps (session cs)))))
         \<and> cursor_in_range (nextStep (session cs))
         \<and> cursor_in_range (prevStep (session cs))"
proof -
  have init: "totalSteps (initialState :: ('a, 'b) VisualizationState)
        = int (length (steps (initialState :: ('a, 'b) VisualizationState)))"
    "length (steps (initialState :: ('a, 'b) VisualizationState)) < 2 ^ 32"
    "at_index (initialState :: ('a, 'b) VisualizationState)"
    by (simp_all add: initialState_def at_index_def whole_def cursor_in_range_def in_trace_def)
  from foldl_keeps_index [OF init assms]
  have t: "totalSteps (session cs) = int (length (steps (session cs)))"
    and l: "length (steps (session cs)) < 2 ^ 32"
    and a: "at_index (session cs)"
    by (simp_all add: session_def)
  have n: "at_index (apply_call (session cs) NextStep)"
    using apply_call_keeps_index [OF t l a, of NextStep] by (simp add: whole_move_def)
  have p: "at_index (apply_call (session cs) PrevStep)"
    using apply_call_keeps_index [OF t l a, of PrevStep] by (simp add: whole_move_def)
  from a t goToStep_whole(1) [OF t] n p show ?thesis
    by (simp add: at_index_in_range)
qed

subsection \<open>Loading a trace\<close>

text \<open>
  C5 (as the code has it). \<open>setSteps\<close> replaces the trace, sets \<open>totalSteps\<close> to its
  length, puts the cursor at 0 and clears the result; \<open>isPlaying\<close>, \<open>isPaused\<close> and
  \<open>speed\<close> are carried over from the previous state unchanged.
\<close>

theorem setSteps_effect:
  "steps (setSteps new prev) = new
   \<and> totalSteps (setSteps new prev) = int (length new)
   \<and> currentStep (setSteps new prev) = Val 0
   \<and> result (setSteps new prev) = None
   \<and> isPlaying (setSteps new prev) = isPlaying prev
   \<and> isPaused (setSteps new prev) = isPaused prev
   \<and> speed (setSteps new prev) = speed prev"
  by (simp add: setSteps_def)

text \<open>
  C5 as stated fails: loading a trace while a session is playing leaves it playing,
  and loading one while paused leaves it paused.
\<close>

theorem setSteps_not_idle:
  "isPlaying (session [SetSteps [0, 1, 2 :: nat], Play, SetSteps [7, 8] :: (nat, unit) call])
   \<and> isPaused (session [SetSteps [0, 1, 2 :: nat], Play, Pause, SetSteps [7, 8] :: (nat, unit) call])"
  by (simp add: session_def initialState_def setSteps_def play_def pause_def)

subsection \<open>The cursor after \<open>goToStep\<close> of a number that is no index\<close>






section \<open>Properties of the Fibonacci runner\<close>

lemma fib_add: "fib (Suc (m + k)) = fib (Suc m) * fib (Suc k) + fib m * fib k"
  by (induction m rule: fib.induct) (simp_all add: algebra_simps)

lemma fib_double_Suc: "fib (Suc (j + j)) = fib (Suc j) * fib (Suc j) + fib j * fib j"
  by (rule fib_add)

lemma fib_double: "fib (j + j) = fib j * (2 * fib (Suc j) - fib j)"
proof (cases j)
  case 0
  then show ?thesis by simp
next
  case (Suc i)
  have "fib (Suc i + Suc i) = fib (Suc (i + Suc i))" by simp
  also have "\<dots> = fib (Suc i) * fib (Suc (Suc i)) + fib i * fib (Suc i)" by (rule fib_add)
  also have "\<dots> = fib (Suc i) * (2 * fib (Suc (Suc i)) - fib (Suc i))"
    by (simp add: algebra_simps)
  finally show ?thesis using Suc by simp
qed

lemma fibHelper_step:
  assumes "2 \<le> k" and "fibHelper (k div 2) = (fib (k div 2), fib (Suc (k div 2)))"
  shows "fibHelper k = (fib k, fib (Suc k))"
proof -
  define j where "j = k div 2"
  have ih: "fibHelper (k div 2) = (fib j, fib (Suc j))" using assms(2) j_def by simp
  have ne: "k \<noteq> 0" "k \<noteq> Suc 0" "k \<noteq> 1" using assms(1) by simp_all
  show ?thesis
  proof (cases "k mod 2 = 0")
    case True
    then have k: "k = j + j" unfolding j_def by presburger
    have "fibHelper k = (fib j * (2 * fib (Suc j) - fib j), fib (Suc j) * fib (Suc j) + fib j * fib j)"
      by (subst fibHelper.simps) (simp add: ne True ih Let_def)
    then show ?thesis unfolding k by (simp only: fib_double fib_double_Suc)
  next
    case False
    then have k: "k = Suc (j + j)" unfolding j_def by presburger
    have sk: "Suc (Suc (j + j)) = Suc j + Suc j" by simp
    have "fibHelper k = (fib (Suc j) * fib (Suc j) + fib j * fib j,
        fib j * (2 * fib (Suc j) - fib j) + (fib (Suc j) * fib (Suc j) + fib j * fib j))"
      by (subst fibHelper.simps) (simp add: ne False ih Let_def)
    moreover have "fib (Suc (Suc (j + j))) = fib (j + j) + fib (Suc (j + j))"
      by simp
    ultimately show ?thesis unfolding k by (simp only: fib_double fib_double_Suc)
  qed
qed

lemma fibHelper_fib: "fibHelper k = (fib k, fib (Suc k))"
proof (induction k rule: fibHelper.induct)
  case (1 k)
  show ?case
  proof (cases "2 \<le> k")
    case True
    then have "fibHelper (k div 2) = (fib (k div 2), fib (Suc (k div 2)))"
      using "1" by simp
    with True show ?thesis by (rule fibHelper_step)
  next
    case False
    then have "k = 0 \<or> k = 1" by auto
    then show ?thesis
    proof
      assume "k = 0"
      then show ?thesis by (subst fibHelper.simps) simp
    next
      assume "k = 1"
      then show ?thesis by (subst fibHelper.simps) simp
    qed
  qed
qed

lemma fastDoubling_fib: "fastDoubling n = fib n"
  by (simp add: fastDoubling_def fibHelper_fib)

lemma iterativeFib_loop_fib:
  "d = n - i \<Longrightarrow> i \<le> n \<Longrightarrow>
   iterativeFib_loop (Suc n) (i + 2) (fib i, fib (Suc i)) = (fib n, fib (Suc n))"
proof (induction d arbitrary: i)
  case 0
  then have "i = n" by simp
  then show ?case by (subst iterativeFib_loop.simps) simp
next
  case (Suc d)
  then have le: "i + 2 \<le> Suc n" and d: "d = n - Suc i" and i: "Suc i \<le> n" by simp_all
  have "iterativeFib_loop (Suc n) (Suc i + 2) (fib (Suc i), fib (Suc (Suc i))) = (fib n, fib (Suc n))"
    using Suc.IH [OF d i] .
  then show ?case using le
    by (subst iterativeFib_loop.simps) (simp add: Let_def add.commute)
qed

lemma iterativeFib_fib: "iterativeFib n = fib n"
proof (cases n)
  case 0
  then show ?thesis by (simp add: iterativeFib_def)
next
  case (Suc m)
  have "iterativeFib_loop (Suc m) (0 + 2) (fib 0, fib (Suc 0)) = (fib m, fib (Suc m))"
    by (rule iterativeFib_loop_fib [OF refl]) simp
  then have "snd (iterativeFib_loop (Suc m) 2 (0, 1)) = fib (Suc m)"
    by (simp add: numeral_2_eq_2)
  then show ?thesis using Suc by (cases m) (simp_all add: iterativeFib_def)
qed

lemma fib_nonneg: "0 \<le> fib j"
  by (induction j rule: fib.induct) simp_all

lemma fib_Suc_le: "fib j \<le> fib (Suc j)"
  using fib_nonneg [of "j - 1"] by (cases j) simp_all

lemma fib_mono: "i \<le> j \<Longrightarrow> fib i \<le> fib j"
  by (rule lift_Suc_mono_le [of fib]) (simp_all add: fib_Suc_le)

lemma fib_78: "fib 78 = 8944394323791464"
proof -
  have "fastDoubling 78 = 8944394323791464"
    by (simp add: fastDoubling_def fibHelper.simps Let_def)
  then show ?thesis by (simp add: fastDoubling_fib)
qed

lemma fib_safe: "j \<le> 78 \<Longrightarrow> \<bar>fib j\<bar> \<le> 2 ^ 53"
  using fib_mono [of j 78] fib_nonneg [of j] by (simp add: fib_78)

lemma filled_nth: "filled n k dp \<Longrightarrow> j < k \<Longrightarrow> dp ! j = Some (cellfib n j)"
proof -
  assume f: "filled n k dp" and j: "j < k"
  have "dp ! j = take k dp ! j" using j by simp
  also have "\<dots> = map (\<lambda>j. Some (cellfib n j)) [0..<k] ! j" using f by (simp add: filled_def)
  also have "\<dots> = Some (cellfib n j)" using j by simp
  finally show ?thesis .
qed

lemma filled_get: "filled n k dp \<Longrightarrow> 0 \<le> i \<Longrightarrow> nat i < k \<Longrightarrow>
    arr_get dp i = Some (cellfib n (nat i))"
  using filled_nth [of n k dp "nat i"] by (auto simp: arr_get_def filled_def)

lemma filled_mono: "filled n k dp \<Longrightarrow> j \<le> k \<Longrightarrow> filled n j dp"
proof -
  assume f: "filled n k dp" and j: "j \<le> k"
  have "take j dp = take j (take k dp)" using j by (simp add: min_def)
  also have "\<dots> = map (\<lambda>j. Some (cellfib n j)) (take j [0..<k])"
    using f by (simp add: filled_def take_map)
  also have "take j [0..<k] = [0..<j]" using j by simp
  finally show ?thesis using f j by (simp add: filled_def)
qed

lemma filled_step:
  assumes "filled n k dp"
  shows "filled n (Suc k) (arr_set dp k (cellfib n k))"
proof -
  have le: "k \<le> length dp" and tk: "take k dp = map (\<lambda>j. Some (cellfib n j)) [0..<k]"
    using assms by (simp_all add: filled_def)
  show ?thesis
  proof (cases "k < length dp")
    case True
    have "take (Suc k) (dp[k := Some (cellfib n k)])
        = take k (dp[k := Some (cellfib n k)]) @ [dp[k := Some (cellfib n k)] ! k]"
      using True by (simp add: take_Suc_conv_app_nth)
    also have "\<dots> = take k dp @ [Some (cellfib n k)]" using True by simp
    also have "\<dots> = map (\<lambda>j. Some (cellfib n j)) [0..<Suc k]" by (simp add: tk)
    finally have "take (Suc k) (arr_set dp k (cellfib n k))
        = map (\<lambda>j. Some (cellfib n j)) [0..<Suc k]"
      using True by (simp only: arr_set_def if_True)
    moreover have "Suc k \<le> length (arr_set dp k (cellfib n k))"
      using True by (simp add: arr_set_def)
    ultimately show ?thesis unfolding filled_def by blast
  next
    case False
    with le have k: "length dp = k" by simp
    have a: "arr_set dp k (cellfib n k) = dp @ [Some (cellfib n k)]"
      by (simp add: arr_set_def k)
    have "take k dp = dp" using k by simp
    then have d: "dp = map (\<lambda>j. Some (cellfib n j)) [0..<k]" using tk by simp
    have "take (Suc k) (dp @ [Some (cellfib n k)]) = dp @ [Some (cellfib n k)]"
      using k by simp
    also have "\<dots> = map (\<lambda>j. Some (cellfib n j)) [0..<Suc k]"
      by (subst d) simp
    finally show ?thesis unfolding filled_def a using k by simp
  qed
qed

lemma cell_plus_fib:
  assumes "2 \<le> k" "n > 78 \<or> k \<le> 78"
  shows "cell_plus (Some (cellfib n (k - 1))) (Some (cellfib n (k - 2))) = Inr (cellfib n k)"
proof -
  obtain j where k: "k = Suc (Suc j)" using assms(1)
    by (metis Suc_le_D numeral_2_eq_2 Suc_le_mono le0 not0_implies_Suc not_less_eq_eq)
  show ?thesis
  proof (cases "n > 78")
    case True
    then show ?thesis by (simp add: cellfib_def k)
  next
    case False
    then have "k \<le> 78" using assms(2) by simp
    then have "\<bar>fib (Suc j) + fib j\<bar> \<le> 2 ^ 53" using fib_safe [of k] by (simp add: k)
    then show ?thesis using False by (simp add: cellfib_def k num_add_def)
  qed
qed

lemma dp_loop_fills:
  assumes "d = nat (n + 1 - i)" "2 \<le> i" "n \<le> 10000" "filled n (nat i) dp"
  shows "\<exists>dp' out'. dp_loop n m r i (dp, out) = Inr (dp', out')
           \<and> filled n (max (nat i) (nat (n + 1))) dp' \<and> (\<exists>ys. out' = out @ ys)"
  using assms
proof (induction d arbitrary: i dp out)
  case 0
  then have "\<not> i \<le> n" by simp
  then have "dp_loop n m r i (dp, out) = Inr (dp, out)"
    by (subst dp_loop.simps) simp
  moreover have "max (nat i) (nat (n + 1)) = nat i" using \<open>\<not> i \<le> n\<close> by simp
  ultimately show ?case using "0.prems"(4) by simp
next
  case (Suc d)
  then have le: "i \<le> n" by simp
  define k where "k = nat i"
  have k2: "2 \<le> k" and ik: "i = int k" using Suc.prems(2) by (simp_all add: k_def)
  have g1: "arr_get dp (i - 1) = Some (cellfib n (k - 1))"
    using filled_get [OF Suc.prems(4), of "i - 1"] k2 Suc.prems(2)
    by (simp add: k_def nat_diff_distrib)
  have g2: "arr_get dp (i - 2) = Some (cellfib n (k - 2))"
    using filled_get [OF Suc.prems(4), of "i - 2"] k2 Suc.prems(2)
    by (simp add: k_def nat_diff_distrib)
  have "n > 78 \<or> k \<le> 78" using le ik by auto
  then have plus: "cell_plus (arr_get dp (i - 1)) (arr_get dp (i - 2)) = Inr (cellfib n k)"
    unfolding g1 g2 using k2 by (rule cell_plus_fib [rotated])
  define dp1 where "dp1 = arr_set dp (nat i) (cellfib n k)"
  have f1: "filled n (nat (i + 1)) dp1"
    using filled_step [OF Suc.prems(4)] Suc.prems(2)
    by (simp add: dp1_def k_def nat_add_distrib)
  have d: "d = nat (n + 1 - (i + 1))" using Suc.prems(1) by simp
  have i2: "2 \<le> i + 1" using Suc.prems(2) by simp
  have m: "max (nat (i + 1)) (nat (n + 1)) = max (nat i) (nat (n + 1))" using le by simp
  show ?case
  proof (cases "m = Full \<or> js_rem_is_zero i r \<or> i = n \<or> i \<le> 10")
    case True
    define o2 where "o2 = (out @ [\<lparr>kind = Compute,
        payload = [(''i'', Num (Exact i)), (''prev1'', cell_val (cellfib n (k - 1))),
                   (''prev2'', cell_val (cellfib n (k - 2))), (''dp'', dp_strings dp),
                   (''n'', Num (Exact n)), (''strategy'', Str ''dp-array'')],
        codeLine = 10\<rparr>]) @ [\<lparr>kind = Store,
        payload = [(''i'', Num (Exact i)), (''value'', cell_val (cellfib n k)),
                   (''dp'', dp_strings dp1), (''n'', Num (Exact n)),
                   (''strategy'', Str ''dp-array'')],
        codeLine = 11\<rparr>]"
    have e: "dp_loop n m r i (dp, out) = dp_loop n m r (i + 1) (dp1, o2)"
      using le Suc.prems(3) True plus
      by (subst dp_loop.simps)
         (simp add: MAX_DP_ARRAY_SIZE_def Let_def g1 g2 cell_toString_def dp1_def o2_def)
    from Suc.IH [OF d i2 Suc.prems(3) f1, of o2] show ?thesis
      unfolding e m by (auto simp: o2_def)
  next
    case False
    have e: "dp_loop n m r i (dp, out) = dp_loop n m r (i + 1) (dp1, out)"
      using le Suc.prems(3) False plus
      by (subst dp_loop.simps) (simp add: MAX_DP_ARRAY_SIZE_def Let_def dp1_def)
    from Suc.IH [OF d i2 Suc.prems(3) f1, of out] show ?thesis
      unfolding e m by auto
  qed
qed

lemma cell_int_cellfib: "cell_int (cellfib n j) = Some (fib j)"
  by (simp add: cell_int_def cellfib_def)

lemma jsval_int_cellfib: "jsval_int (cell_val (cellfib n j)) = Some (fib j)"
  by (simp add: jsval_int_def cell_val_def cellfib_def)

lemma arr_set_first_two:
  assumes "xs \<noteq> []"
  shows "take 2 (arr_set (arr_set xs 0 a) 1 b) = [Some a, Some b]
         \<and> 2 \<le> length (arr_set (arr_set xs 0 a) 1 b)"
proof (cases xs)
  case Nil
  then show ?thesis using assms by simp
next
  case (Cons x ys)
  then show ?thesis by (cases ys) (simp_all add: arr_set_def)
qed

lemma arr_set_nonempty: "arr_set xs i v \<noteq> []"
  by (auto simp: arr_set_def)

lemma dp_array_path_fills:
  assumes "0 \<le> n" "n \<le> 10000"
  shows "\<exists>dp out. dp_array_path n m d out0 = Inr (dp, out)
           \<and> filled n (nat (n + 1)) dp \<and> (\<exists>ys. out = out0 @ ys)"
proof -
  define dp0 where "dp0 = replicate (nat (min (n + 1) MAX_DP_ARRAY_SIZE)) (Some (Number (Exact 0)))"
  define dp1 where "dp1 = arr_set (arr_set dp0 0 (Number (Exact 0))) 1 (Number (Exact 1))"
  define dp2 where "dp2 = (if n > 78 then arr_set (arr_set dp1 0 (BigInt 0)) 1 (BigInt 1) else dp1)"
  have n0: "dp0 \<noteq> []" using assms by (simp add: dp0_def MAX_DP_ARRAY_SIZE_def)
  have n1: "dp1 \<noteq> []" unfolding dp1_def by (rule arr_set_nonempty)
  have "take 2 dp2 = [Some (cellfib n 0), Some (cellfib n 1)] \<and> 2 \<le> length dp2"
    using arr_set_first_two [OF n0, of "Number (Exact 0)" "Number (Exact 1)"]
      arr_set_first_two [OF n1, of "BigInt 0" "BigInt 1"]
    by (simp add: dp2_def dp1_def cellfib_def)
  then have f2: "filled n (nat 2) dp2"
    by (simp add: filled_def numeral_2_eq_2)
  define o1 where "o1 = out0 @
            [\<lparr>kind = InitDp,
              payload = [(''dp'', dp_strings dp2), (''n'', Num (Exact n)),
                         (''strategy'', Str ''dp-array''), (''useBigInt'', Bool (n > 78))],
              codeLine = 6\<rparr>]"
  have e: "dp_array_path n m d out0 = dp_loop n m (dp_sampleRate m n d) 2 (dp2, o1)"
    by (simp add: dp_array_path_def Let_def dp0_def dp1_def dp2_def o1_def)
  obtain dp' out' where r: "dp_loop n m (dp_sampleRate m n d) 2 (dp2, o1) = Inr (dp', out')"
    and f: "filled n (max (nat 2) (nat (n + 1))) dp'" and o: "\<exists>ys. out' = o1 @ ys"
    using dp_loop_fills [OF refl _ assms(2) f2, of m "dp_sampleRate m n d" o1] by auto
  have "filled n (nat (n + 1)) dp'" using f by (rule filled_mono) simp
  moreover have "\<exists>ys. out' = out0 @ ys" using o by (auto simp: o1_def)
  ultimately show ?thesis unfolding e r by simp
qed

lemma dp_array_path_value:
  assumes "n \<le> 10000"
  shows "table_value (dp_array_path (int n) m d out0) (int n) = Some (fib n)"
proof -
  obtain dp out where r: "dp_array_path (int n) m d out0 = Inr (dp, out)"
    and f: "filled (int n) (nat (int n + 1)) dp"
    using dp_array_path_fills [of "int n" m d out0] assms by auto
  have "arr_get dp (int n) = Some (cellfib (int n) n)"
    using filled_get [OF f, of "int n"] by simp
  then show ?thesis by (simp add: table_value_def r cell_int_cellfib)
qed

lemma fib_trace_base:
  assumes "f_n input \<le> 1"
  shows "\<exists>a b c. fib_generateSteps input = Inr [a, b, c]
           \<and> kind a = Init \<and> kind b = BaseCase \<and> kind c = Complete
           \<and> field ''result'' b = Some (Num (Exact (f_n input)))
           \<and> field ''result'' c = Some (Num (Exact (f_n input)))"
  using assms by (simp add: fib_generateSteps_def Let_def field_def)

lemma fib_trace_computation_only:
  assumes "\<not> f_n input \<le> 1" "resolved_mode input = ComputationOnly \<or> f_n input > 10000"
  shows "\<exists>a b c. fib_generateSteps input = Inr [a, b, c]
           \<and> kind a = Init \<and> kind b = ComputeStart \<and> kind c = Complete
           \<and> field ''result'' c = Some (Big (fastDoubling (nat (f_n input))))
           \<and> field ''dp'' a = None \<and> field ''dp'' b = None \<and> field ''dp'' c = None"
  using assms
  by (simp add: fib_generateSteps_def Let_def field_def resolved_mode_def MAX_DP_ARRAY_SIZE_def)

lemma fib_trace_iterative:
  assumes "\<not> f_n input \<le> 1" "\<not> (resolved_mode input = ComputationOnly \<or> f_n input > 10000)"
    "resolved_strategy input = Iterative"
  shows "\<exists>pre x. fib_generateSteps input = Inr (pre @ [x]) \<and> kind x = Complete"
  using assms
  by (simp add: fib_generateSteps_def Let_def resolved_mode_def resolved_strategy_def
      MAX_DP_ARRAY_SIZE_def case_prod_beta)

lemma fib_generateSteps_dp:
  assumes "\<not> f_n input \<le> 1" "\<not> (resolved_mode input = ComputationOnly \<or> f_n input > 10000)"
    "resolved_strategy input \<noteq> Iterative"
  shows "fib_generateSteps input =
     (case dp_array_path (f_n input) (resolved_mode input) (resolved_detailLevel input)
             (fib_init input) of
        Inl e \<Rightarrow> Inl e
      | Inr (dp3, out2) \<Rightarrow>
         (case cell_toString (arr_get dp3 (f_n input)) of
            Inl e \<Rightarrow> Inl e
          | Inr res \<Rightarrow>
             Inr (out2 @
               [\<lparr>kind = Complete,
                 payload = [(''n'', Num (Exact (f_n input))), (''result'', res),
                            (''dp'', dp_strings dp3)],
                 codeLine = 14\<rparr>])))"
  using assms
  by (simp add: fib_generateSteps_def Let_def resolved_mode_def resolved_strategy_def
      resolved_detailLevel_def fib_init_def MAX_DP_ARRAY_SIZE_def
      split: sum.splits prod.splits)

lemma fib_trace_dp:
  assumes "\<not> f_n input \<le> 1" "\<not> (resolved_mode input = ComputationOnly \<or> f_n input > 10000)"
    "resolved_strategy input \<noteq> Iterative"
  shows "\<exists>pre x. fib_generateSteps input = Inr (pre @ [x]) \<and> kind x = Complete
           \<and> result_int x = Some (fib (nat (f_n input)))"
proof -
  have n: "0 \<le> f_n input" "f_n input \<le> 10000" using assms by simp_all
  obtain dp out where r: "dp_array_path (f_n input) (resolved_mode input)
      (resolved_detailLevel input) (fib_init input) = Inr (dp, out)"
    and f: "filled (f_n input) (nat (f_n input + 1)) dp"
    using dp_array_path_fills [OF n] by blast
  have g: "arr_get dp (f_n input) = Some (cellfib (f_n input) (nat (f_n input)))"
    using filled_get [OF f, of "f_n input"] n by simp
  have "fib_generateSteps input = Inr (out @
      [\<lparr>kind = Complete,
        payload = [(''n'', Num (Exact (f_n input))),
                   (''result'', cell_val (cellfib (f_n input) (nat (f_n input)))),
                   (''dp'', dp_strings dp)],
        codeLine = 14\<rparr>])"
    unfolding fib_generateSteps_dp [OF assms] r by (simp add: g cell_toString_def)
  then show ?thesis
    by (auto simp: result_int_def field_def jsval_int_cellfib)
qed

lemma fib_trace_complete:
  "\<exists>pre x. fib_generateSteps input = Inr (pre @ [x]) \<and> kind x = Complete"
proof (cases "f_n input \<le> 1")
  case True
  from fib_trace_base [OF True] obtain a b c where
    "fib_generateSteps input = Inr ([a, b] @ [c])" "kind c = Complete" by auto
  then show ?thesis by blast
next
  case n: False
  show ?thesis
  proof (cases "resolved_mode input = ComputationOnly \<or> f_n input > 10000")
    case True
    from fib_trace_computation_only [OF n True] obtain a b c where
      "fib_generateSteps input = Inr ([a, b] @ [c])" "kind c = Complete" by auto
    then show ?thesis by blast
  next
    case m: False
    show ?thesis
    proof (cases "resolved_strategy input = Iterative")
      case True
      from fib_trace_iterative [OF n m True] show ?thesis .
    next
      case False
      from fib_trace_dp [OF n m False] show ?thesis by blast
    qed
  qed
qed

lemma fib_result:
  assumes "0 \<le> f_n input" "resolved_strategy input \<noteq> Iterative"
  shows "\<exists>pre x. fib_generateSteps input = Inr (pre @ [x]) \<and> kind x = Complete
           \<and> result_int x = Some (fib (nat (f_n input)))"
proof (cases "f_n input \<le> 1")
  case True
  then have "f_n input = 0 \<or> f_n input = 1" using assms(1) by auto
  then have v: "fib (nat (f_n input)) = f_n input" by auto
  from fib_trace_base [OF True] obtain a b c where
    "fib_generateSteps input = Inr ([a, b] @ [c])" "kind c = Complete"
    "field ''result'' c = Some (Num (Exact (f_n input)))" by auto
  then show ?thesis unfolding v by (auto simp: result_int_def jsval_int_def)
next
  case n: False
  show ?thesis
  proof (cases "resolved_mode input = ComputationOnly \<or> f_n input > 10000")
    case True
    from fib_trace_computation_only [OF n True] obtain a b c where
      "fib_generateSteps input = Inr ([a, b] @ [c])" "kind c = Complete"
      "field ''result'' c = Some (Big (fastDoubling (nat (f_n input))))" by auto
    then show ?thesis by (auto simp: result_int_def jsval_int_def fastDoubling_fib)
  next
    case m: False
    from fib_trace_dp [OF n m assms(2)] show ?thesis .
  qed
qed

lemma count_kind_append [simp]: "count_kind k (xs @ ys) = count_kind k xs + count_kind k ys"
  by (simp add: count_kind_def)

lemma count_kind_Cons [simp]:
  "count_kind k (x # xs) = (if kind x = k then 1 else 0) + count_kind k xs"
  by (simp add: count_kind_def)

lemma count_kind_Nil [simp]: "count_kind k [] = 0"
  by (simp add: count_kind_def)

lemma iterative_loop_count:
  assumes "d = nat (n + 1 - i)" "k = Compute \<or> k = Store"
  shows "count_kind k (snd (snd (iterative_loop n r i (a, b, out))))
           = count_kind k out + length (filter (sampled r n) [i..n])"
  using assms(1)
proof (induction d arbitrary: i a b out)
  case 0
  then have "\<not> i \<le> n" by simp
  then show ?case by (subst iterative_loop.simps) simp
next
  case (Suc d)
  then have le: "i \<le> n" and d: "d = nat (n + 1 - (i + 1))" by simp_all
  have u: "[i..n] = i # [i + 1..n]" using le by (simp add: upto_rec1)
  show ?case
    using le assms(2)
    by (subst iterative_loop.simps)
       (auto simp: Let_def Suc.IH [OF d] u sampled_def [abs_def])
qed

lemma dp_loop_count:
  assumes "d = nat (n + 1 - i)" "k = Compute \<or> k = Store" "n \<le> 10000"
    "dp_loop n m r i (dp, out) = Inr (dp', out')"
  shows "count_kind k out'
           = count_kind k out + length (filter (\<lambda>j. m = Full \<or> sampled r n j) [i..n])"
  using assms(1,4)
proof (induction d arbitrary: i dp out)
  case 0
  then have "\<not> i \<le> n" by simp
  then show ?case using "0.prems"(2) by (subst (asm) dp_loop.simps) simp
next
  case (Suc d)
  then have le: "i \<le> n" and d: "d = nat (n + 1 - (i + 1))" by simp_all
  have u: "[i..n] = i # [i + 1..n]" using le by (simp add: upto_rec1)
  from Suc.prems(2) le assms(3) show ?case
    apply (subst (asm) dp_loop.simps)
    apply (simp add: MAX_DP_ARRAY_SIZE_def Let_def split: sum.splits if_splits)
    using assms(2) apply (auto simp: u sampled_def [abs_def] dest!: Suc.IH [OF d])
    done
qed

lemma fib_count_iterative:
  assumes "\<not> f_n input \<le> 1" "\<not> (resolved_mode input = ComputationOnly \<or> f_n input > 10000)"
    "resolved_strategy input = Iterative" "k = Compute \<or> k = Store"
  shows "emitted_count k (fib_generateSteps input)
     = length (filter (sampled (iterative_sampleRate (resolved_mode input) (f_n input)
                          (resolved_detailLevel input)) (f_n input)) [2..f_n input])"
proof -
  define r where "r = iterative_sampleRate (resolved_mode input) (f_n input)
      (resolved_detailLevel input)"
  define o1 where "o1 = fib_init input @
      [\<lparr>kind = InitDp,
        payload = [(''dp'', Arr [Num (Exact 0), Num (Exact 1)]), (''n'', Num (Exact (f_n input))),
                   (''strategy'', Str ''iterative'')],
        codeLine = 6\<rparr>]"
  define l where "l = iterative_loop (f_n input) r 2 (Exact 0, Exact 1, o1)"
  have c: "count_kind k (snd (snd l))
      = count_kind k o1 + length (filter (sampled r (f_n input)) [2..f_n input])"
    unfolding l_def by (rule iterative_loop_count [OF refl assms(4)])
  have o: "count_kind k o1 = 0" using assms(4) by (auto simp: o1_def fib_init_def)
  have "fib_generateSteps input = Inr (snd (snd l) @
      [\<lparr>kind = Complete,
        payload = [(''n'', Num (Exact (f_n input))), (''result'', Num (fst (snd l))),
                   (''dp'', Arr [Num (fst l), Num (fst (snd l))])],
        codeLine = 14\<rparr>])"
    using assms(1-3)
    by (simp add: fib_generateSteps_def Let_def resolved_mode_def resolved_strategy_def
        resolved_detailLevel_def fib_init_def MAX_DP_ARRAY_SIZE_def case_prod_beta
        l_def r_def o1_def)
  then show ?thesis
    using c o assms(4) by (auto simp: emitted_count_def r_def)
qed

lemma dp_array_path_count:
  assumes "dp_array_path n m d out0 = Inr (dp, out)" "n \<le> 10000" "k = Compute \<or> k = Store"
  shows "count_kind k out
     = count_kind k out0
       + length (filter (\<lambda>j. m = Full \<or> sampled (dp_sampleRate m n d) n j) [2..n])"
proof -
  note l = assms(1) [unfolded dp_array_path_def Let_def]
  note c = dp_loop_count [OF refl assms(3) assms(2) l]
  show ?thesis unfolding c using assms(3) by auto
qed

lemma fib_count_dp:
  assumes "\<not> f_n input \<le> 1" "\<not> (resolved_mode input = ComputationOnly \<or> f_n input > 10000)"
    "resolved_strategy input \<noteq> Iterative" "k = Compute \<or> k = Store"
  shows "emitted_count k (fib_generateSteps input)
     = length (filter (\<lambda>j. resolved_mode input = Full
                 \<or> sampled (dp_sampleRate (resolved_mode input) (f_n input)
                          (resolved_detailLevel input)) (f_n input) j) [2..f_n input])"
proof -
  have n: "0 \<le> f_n input" "f_n input \<le> 10000" using assms by simp_all
  obtain dp out where r: "dp_array_path (f_n input) (resolved_mode input)
      (resolved_detailLevel input) (fib_init input) = Inr (dp, out)"
    and f: "filled (f_n input) (nat (f_n input + 1)) dp"
    using dp_array_path_fills [OF n] by blast
  have g: "arr_get dp (f_n input) = Some (cellfib (f_n input) (nat (f_n input)))"
    using filled_get [OF f, of "f_n input"] n by simp
  have t: "fib_generateSteps input = Inr (out @
      [\<lparr>kind = Complete,
        payload = [(''n'', Num (Exact (f_n input))),
                   (''result'', cell_val (cellfib (f_n input) (nat (f_n input)))),
                   (''dp'', dp_strings dp)],
        codeLine = 14\<rparr>])"
    unfolding fib_generateSteps_dp [OF assms(1-3)] r by (simp add: g cell_toString_def)
  have i: "count_kind k (fib_init input) = 0" using assms(4) by (auto simp: fib_init_def)
  show ?thesis
    unfolding t emitted_count_def using dp_array_path_count [OF r n(2) assms(4)] i assms(4)
    by auto
qed

lemma arr_set_length: "length (arr_set xs i v) = max (length xs) (Suc i)"
  by (auto simp: arr_set_def)

lemma dp_loop_length:
  assumes "d = nat (n + 1 - i)" "0 \<le> i" "dp_loop n m r i (dp, out) = Inr (dp', out')"
  shows "length dp' \<le> max (length dp) 10001"
  using assms
proof (induction d arbitrary: i dp out)
  case 0
  then have "\<not> i \<le> n" by simp
  then show ?case using "0.prems"(3) by (subst (asm) dp_loop.simps) simp
next
  case (Suc d)
  then have le: "i \<le> n" and d: "d = nat (n + 1 - (i + 1))" and i: "0 \<le> i + 1" by simp_all
  show ?case
  proof (cases "i \<le> MAX_DP_ARRAY_SIZE")
    case False
    then show ?thesis using Suc.prems(3) by (subst (asm) dp_loop.simps) simp
  next
    case True
    then have b: "Suc (nat i) \<le> 10001" by (simp add: MAX_DP_ARRAY_SIZE_def)
    from Suc.prems(3) le True show ?thesis
      apply (subst (asm) dp_loop.simps)
      apply (simp add: Let_def split: sum.splits if_splits)
      using b apply (auto dest!: Suc.IH [OF d i] simp: arr_set_length)
      done
  qed
qed

lemma dp_array_path_beyond_cap:
  assumes "10000 < n"
  shows "table_value (dp_array_path n m d out0) n = None"
proof (cases "dp_array_path n m d out0")
  case (Inl e)
  then show ?thesis by (simp add: table_value_def)
next
  case (Inr p)
  obtain dp out where p: "p = (dp, out)" by (cases p)
  note l = Inr [unfolded p dp_array_path_def Let_def]
  have "length dp \<le> max (length (if 78 < n
       then arr_set (arr_set (arr_set (arr_set
              (replicate (nat (min (n + 1) MAX_DP_ARRAY_SIZE)) (Some (Number (Exact 0))))
              0 (Number (Exact 0))) 1 (Number (Exact 1))) 0 (BigInt 0)) 1 (BigInt 1)
       else arr_set (arr_set
              (replicate (nat (min (n + 1) MAX_DP_ARRAY_SIZE)) (Some (Number (Exact 0))))
              0 (Number (Exact 0))) 1 (Number (Exact 1)))) 10001"
    by (rule dp_loop_length [OF refl _ l]) simp
  then have "length dp \<le> 10001"
    using assms by (simp add: arr_set_length MAX_DP_ARRAY_SIZE_def)
  then have "arr_get dp n = None" using assms by (simp add: arr_get_def)
  then show ?thesis by (simp add: table_value_def Inr p)
qed

text \<open>
  C2 (as the code has it). \<open>iterativeFib\<close> and \<open>fastDoubling\<close> agree at every \<open>n\<close>. For
  \<open>n \<le> 10000\<close> the table built by the dp-array strategy holds the same value at index
  \<open>n\<close>, whatever the mode, detail level and steps so far. With any strategy but the
  iterative one, \<open>generateSteps\<close> returns a trace whose last step is \<open>complete\<close> and
  carries that value as its result, for every \<open>n\<close>.
\<close>

theorem strategies_agree_within_cap:
  "iterativeFib n = fastDoubling n
   \<and> (n \<le> 10000 \<longrightarrow>
        table_value (dp_array_path (int n) m d out0) (int n) = Some (iterativeFib n))
   \<and> (st \<noteq> Some Iterative \<longrightarrow>
        (\<exists>t. fib_generateSteps \<lparr>f_n = int n, f_strategy = st, f_detailLevel = dl, f_mode = md\<rparr>
               = Inr t
             \<and> kind (last t) = Complete \<and> result_int (last t) = Some (iterativeFib n)))"
proof -
  have a: "iterativeFib n = fastDoubling n" by (simp add: iterativeFib_fib fastDoubling_fib)
  have b: "n \<le> 10000 \<longrightarrow>
      table_value (dp_array_path (int n) m d out0) (int n) = Some (iterativeFib n)"
    by (simp add: dp_array_path_value iterativeFib_fib)
  have c: "st \<noteq> Some Iterative \<longrightarrow>
      (\<exists>t. fib_generateSteps \<lparr>f_n = int n, f_strategy = st, f_detailLevel = dl, f_mode = md\<rparr>
             = Inr t
           \<and> kind (last t) = Complete \<and> result_int (last t) = Some (iterativeFib n))"
  proof
    assume st: "st \<noteq> Some Iterative"
    let ?i = "\<lparr>f_n = int n, f_strategy = st, f_detailLevel = dl, f_mode = md\<rparr>"
    have "resolved_strategy ?i \<noteq> Iterative"
      using st by (auto simp: resolved_strategy_def split: option.splits)
    from fib_result [OF _ this] obtain pre x where
      "fib_generateSteps ?i = Inr (pre @ [x])" "kind x = Complete"
      "result_int x = Some (fib n)" by auto
    then show "\<exists>t. fib_generateSteps ?i = Inr t
        \<and> kind (last t) = Complete \<and> result_int (last t) = Some (iterativeFib n)"
      by (simp add: iterativeFib_fib)
  qed
  from a b c show ?thesis by blast
qed

theorem strategies_agree_within_cap_witness:
  "iterativeFib 10 = fastDoubling 10
   \<and> table_value (dp_array_path 10 Full 50 []) 10 = Some (iterativeFib 10)
   \<and> (\<exists>t. fib_generateSteps \<lparr>f_n = 10, f_strategy = Some DpArray, f_detailLevel = Some 50,
                                f_mode = Some Full\<rparr> = Inr t
         \<and> kind (last t) = Complete \<and> result_int (last t) = Some (iterativeFib 10))"
  using strategies_agree_within_cap [of 10 Full 50 "[]" "Some DpArray" "Some 50" "Some Full"]
  by auto

text \<open>
  C2 as stated fails above the cap. \<open>n = 10001\<close> is a valid input, and with the dp-array
  strategy \<open>generateSteps\<close> returns \<open>init\<close>, \<open>compute-start\<close>, \<open>complete\<close>: no table is
  built and no step has a \<open>dp\<close> field. The table code itself, run for 10001, stops at
  index 10000 and leaves nothing at index 10001.
\<close>

theorem no_table_beyond_cap:
  "valid (fib_validateInput
      \<lparr>f_n = 10001, f_strategy = Some DpArray, f_detailLevel = None, f_mode = Some Full\<rparr>)
   \<and> (\<exists>a b c. fib_generateSteps
          \<lparr>f_n = 10001, f_strategy = Some DpArray, f_detailLevel = None, f_mode = Some Full\<rparr>
          = Inr [a, b, c]
        \<and> kind a = Init \<and> kind b = ComputeStart \<and> kind c = Complete
        \<and> field ''dp'' a = None \<and> field ''dp'' b = None \<and> field ''dp'' c = None)
   \<and> table_value (dp_array_path 10001 Full 50 []) 10001 = None"
proof -
  let ?i = "\<lparr>f_n = 10001, f_strategy = Some DpArray, f_detailLevel = None, f_mode = Some Full\<rparr>"
  have v: "valid (fib_validateInput ?i)" by (simp add: fib_validateInput_def)
  have t: "\<exists>a b c. fib_generateSteps ?i = Inr [a, b, c]
        \<and> kind a = Init \<and> kind b = ComputeStart \<and> kind c = Complete
        \<and> field ''dp'' a = None \<and> field ''dp'' b = None \<and> field ''dp'' c = None"
    using fib_trace_computation_only [of ?i] by auto
  have d: "table_value (dp_array_path 10001 Full 50 []) 10001 = None"
    by (rule dp_array_path_beyond_cap) simp
  from v t d show ?thesis by blast
qed

text \<open>
  C3, the code at four inputs. With \<open>n = 100\<close> in condensed mode the iterative strategy
  emits 99 \<open>compute\<close> steps at detail level 10 and 18 at detail level 90; the dp-array
  strategy emits 99 at detail level 5 and 10 at detail level 100. A higher detail level
  gives fewer steps here.
\<close>

theorem detail_level_inverted:
  "emitted_count Compute (fib_generateSteps
      \<lparr>f_n = 100, f_strategy = Some Iterative, f_detailLevel = Some 10, f_mode = Some Condensed\<rparr>) = 99
   \<and> emitted_count Compute (fib_generateSteps
      \<lparr>f_n = 100, f_strategy = Some Iterative, f_detailLevel = Some 90, f_mode = Some Condensed\<rparr>) = 18
   \<and> emitted_count Compute (fib_generateSteps
      \<lparr>f_n = 100, f_strategy = Some DpArray, f_detailLevel = Some 5, f_mode = Some Condensed\<rparr>) = 99
   \<and> emitted_count Compute (fib_generateSteps
      \<lparr>f_n = 100, f_strategy = Some DpArray, f_detailLevel = Some 100, f_mode = Some Condensed\<rparr>) = 10"
  by (simp add: fib_count_iterative fib_count_dp resolved_mode_def resolved_strategy_def
      resolved_detailLevel_def iterative_sampleRate_def dp_sampleRate_def sampled_def
      js_rem_is_zero_def upto_rec_numeral)

text \<open>
  C4 (as the code has it). For \<open>n = 0\<close> and \<open>n = 1\<close>, whatever the other fields of
  the input, the trace is exactly three steps, \<open>init\<close>, \<open>base-case\<close>, \<open>complete\<close>, and
  the last two carry the result 0 and 1 respectively.
\<close>

theorem base_case_trace:
  "(\<exists>a b c. fib_generateSteps (input\<lparr>f_n := 0\<rparr>) = Inr [a, b, c]
       \<and> kind a = Init \<and> kind b = BaseCase \<and> kind c = Complete
       \<and> field ''result'' b = Some (Num (Exact 0)) \<and> field ''result'' c = Some (Num (Exact 0)))
   \<and> (\<exists>a b c. fib_generateSteps (input\<lparr>f_n := 1\<rparr>) = Inr [a, b, c]
       \<and> kind a = Init \<and> kind b = BaseCase \<and> kind c = Complete
       \<and> field ''result'' b = Some (Num (Exact 1)) \<and> field ''result'' c = Some (Num (Exact 1)))"
  using fib_trace_base [of "input\<lparr>f_n := 0\<rparr>"] fib_trace_base [of "input\<lparr>f_n := 1\<rparr>"]
  by simp

text \<open>
  C4 as stated fails. The trace for \<open>n = 0\<close> has three steps and starts with \<open>init\<close>;
  it is not the two steps \<open>base-case\<close>, \<open>complete\<close>.
\<close>

theorem base_case_trace_has_three_steps:
  "\<exists>t. fib_generateSteps \<lparr>f_n = 0, f_strategy = None, f_detailLevel = None, f_mode = None\<rparr> = Inr t
       \<and> length t = 3 \<and> map kind t = [Init, BaseCase, Complete]
       \<and> map kind t \<noteq> [BaseCase, Complete]"
  using fib_trace_base [of "\<lparr>f_n = 0, f_strategy = None, f_detailLevel = None, f_mode = None\<rparr>"]
  by auto

section \<open>Properties of the N-Queens runner\<close>


lemma grows_refl: "grows c s s"
  by (simp add: grows_def)

lemma grows_trans: "grows c s t \<Longrightarrow> grows c t u \<Longrightarrow> grows c s u"
  by (auto simp: grows_def)

lemma grows_push: "solver_step c x \<Longrightarrow> grows c s (push x s)"
  by (simp add: grows_def push_def)

lemma grows_emitted_eq: "emitted t = emitted s \<Longrightarrow> grows c s t"
  by (simp add: grows_def)

lemma grows_found_solution: "grows c s (snd (found_solution c s))"
  by (simp add: found_solution_def Let_def grows_def push_def solver_step_def field_def)

lemma grows_step_limit: "grows c s (snd (step_limit c s))"
  by (simp add: step_limit_def Let_def grows_def push_def solver_step_def field_def)

lemma grows_enter_row: "grows c s (enter_row c row s)"
  by (simp add: enter_row_def Let_def grows_def push_def solver_step_def field_def)

lemma grows_place_queen: "grows c s (place_queen c row col s)"
  by (simp add: place_queen_def Let_def grows_def push_def solver_step_def field_def
      row_col_step_def)

lemma grows_backtrack: "grows c s (backtrack c row col s)"
  by (simp add: backtrack_def Let_def grows_def push_def solver_step_def field_def
      row_col_step_def)

lemma grows_check_col: "grows c s (snd (check_col c row col s))"
  by (simp add: check_col_def Let_def grows_def push_def solver_step_def field_def
      row_col_step_def)

lemma traditional_grows:
  "grows c s (snd (solveTraditional c row s))"
  "grows c s (snd (traditional_cols c row col s))"
proof (induct c row s and c row col s rule: solveTraditional_traditional_cols.induct)
  case (1 c row s)
  show ?case
  proof (cases "row = c_n c \<or> MAX_STEPS c < stepCount s")
    case True
    then show ?thesis
      by (subst solveTraditional.simps) (auto simp: grows_found_solution grows_step_limit)
  next
    case False
    then have ne: "row \<noteq> c_n c" and le: "\<not> MAX_STEPS c < stepCount s" by simp_all
    from grows_trans [OF grows_enter_row "1" [OF ne le]] ne le show ?thesis
      by (subst solveTraditional.simps) simp
  qed
next
  case (2 c row col s)
  show ?case
  proof (cases "col < c_n c")
    case False
    then show ?thesis by (subst traditional_cols.simps) (simp add: grows_refl)
  next
    case lt: True
    define k where "k = check_col c row col s"
    have kc: "(fst k, snd k) = check_col c row col s" by (simp add: k_def)
    have gk: "grows c s (snd k)" unfolding k_def by (rule grows_check_col)
    show ?thesis
    proof (cases "fst k")
      case False
      have "grows c (snd k) (snd (traditional_cols c row (col + 1) (snd k)))"
        by (rule "2"(3) [OF lt refl kc False])
      with gk have "grows c s (snd (traditional_cols c row (col + 1) (snd k)))"
        by (rule grows_trans)
      then show ?thesis
        using lt False by (subst traditional_cols.simps) (simp add: case_prod_beta k_def)
    next
      case safe: True
      define r where "r = solveTraditional c (row + 1) (place_queen c row col (snd k))"
      have rc: "(fst r, snd r) = solveTraditional c (row + 1) (place_queen c row col (snd k))"
        by (simp add: r_def)
      have "grows c (place_queen c row col (snd k)) (snd r)"
        unfolding r_def by (rule "2"(1) [OF lt refl kc safe])
      with grows_trans [OF gk grows_place_queen] have gr: "grows c s (snd r)"
        by (rule grows_trans)
      show ?thesis
      proof (cases "fst r")
        case True
        then show ?thesis using gr lt safe
          by (subst traditional_cols.simps) (simp add: case_prod_beta r_def k_def)
      next
        case False
        have "grows c (backtrack c row col (snd r))
            (snd (traditional_cols c row (col + 1) (backtrack c row col (snd r))))"
          by (rule "2"(2) [OF lt refl kc safe refl rc False])
        with grows_trans [OF gr grows_backtrack]
        have "grows c s (snd (traditional_cols c row (col + 1) (backtrack c row col (snd r))))"
          by (rule grows_trans)
        then show ?thesis using lt safe False
          by (subst traditional_cols.simps) (simp add: case_prod_beta r_def k_def)
      qed
    qed
  qed
qed

lemma bitmask_grows:
  "grows c s (snd (solveBitmask c row cols diag1 diag2 s))"
  "grows c s (snd (bitmask_cols c row cols diag1 diag2 col s))"
proof (induct c row cols diag1 diag2 s and c row cols diag1 diag2 col s
    rule: solveBitmask_bitmask_cols.induct)
  case (1 c row cols diag1 diag2 s)
  show ?case
  proof (cases "row = c_n c \<or> MAX_STEPS c < stepCount s")
    case True
    then show ?thesis
      by (subst solveBitmask.simps) (auto simp: grows_found_solution grows_step_limit)
  next
    case False
    then have ne: "row \<noteq> c_n c" and le: "\<not> MAX_STEPS c < stepCount s" by simp_all
    from grows_trans [OF grows_enter_row "1" [OF ne le]] ne le show ?thesis
      by (subst solveBitmask.simps) simp
  qed
next
  case (2 c row cols diag1 diag2 col s)
  show ?case
  proof (cases "col < c_n c")
    case False
    then show ?thesis by (subst bitmask_cols.simps) (simp add: grows_refl)
  next
    case lt: True
    show ?thesis
    proof (cases "isSafeBitmask row col cols diag1 diag2")
      case False
      then show ?thesis
        using lt "2"(3) by (subst bitmask_cols.simps) simp
    next
      case safe: True
      define r where "r = solveBitmask c (row + 1) (cols OR shl1 (int col))
          (diag1 OR shl1 (int row - int col + MAX_N)) (diag2 OR shl1 (int row + int col))
          (place_queen c row col s)"
      have "grows c (place_queen c row col s) (snd r)"
        unfolding r_def by (rule "2"(1) [OF lt safe refl refl refl])
      with grows_place_queen have gr: "grows c s (snd r)"
        by (rule grows_trans)
      show ?thesis
      proof (cases "fst r")
        case True
        then show ?thesis using gr lt safe
          by (subst bitmask_cols.simps) (simp add: Let_def case_prod_beta r_def)
      next
        case False
        have "grows c (backtrack c row col (snd r))
            (snd (bitmask_cols c row cols diag1 diag2 (col + 1) (backtrack c row col (snd r))))"
          unfolding r_def
          apply (rule "2"(2) [OF lt safe refl refl refl refl])
           apply (rule prod.collapse)
          using False apply (simp add: r_def)
          done
        with grows_trans [OF gr grows_backtrack]
        have "grows c s (snd (bitmask_cols c row cols diag1 diag2 (col + 1) (backtrack c row col (snd r))))"
          by (rule grows_trans)
        then show ?thesis using lt safe False
          by (subst bitmask_cols.simps) (simp add: Let_def case_prod_beta r_def)
      qed
    qed
  qed
qed

lemma nq_generateSteps_shape:
  assumes "0 \<le> q_n input"
  shows "nq_generateSteps input = Inr (emitted (nq_solved input) @ nq_tail input)"
proof -
  have n: "\<not> min (q_n input) MAX_N < 0" using assms by (simp add: MAX_N_def)
  show ?thesis
    unfolding nq_generateSteps_def nq_tail_def nq_solved_def nq_config_def nq_init_def
      effective_n_def effective_maxSolutions_def effective_mode_def effective_useBitmask_def
    using n by (simp add: Let_def case_prod_beta push_def)
qed

lemma nq_generateSteps_negative:
  assumes "q_n input < 0"
  shows "nq_generateSteps input = Inl RangeError"
  using assms by (simp add: nq_generateSteps_def Let_def MAX_N_def)

lemma nq_solved_grows: "grows (nq_config input) (nq_init input) (nq_solved input)"
  unfolding nq_solved_def by (simp add: traditional_grows bitmask_grows)

lemma same_found_solution:
  "same_config c d \<Longrightarrow> same_search s t \<Longrightarrow>
   fst (found_solution c s) = fst (found_solution d t)
   \<and> same_search (snd (found_solution c s)) (snd (found_solution d t))"
  by (simp add: same_config_def same_search_def found_solution_def Let_def push_def)

lemma same_step_limit:
  "same_search s t \<Longrightarrow>
   fst (step_limit c s) = fst (step_limit d t)
   \<and> same_search (snd (step_limit c s)) (snd (step_limit d t))"
  by (simp add: same_search_def step_limit_def Let_def push_def)

lemma same_enter_row: "same_search s t \<Longrightarrow> same_search (enter_row c row s) (enter_row d row t)"
  by (simp add: same_search_def enter_row_def Let_def push_def)

lemma same_place_queen:
  "same_search s t \<Longrightarrow> same_search (place_queen c row col s) (place_queen d row col t)"
  by (simp add: same_search_def place_queen_def Let_def push_def)

lemma same_backtrack:
  "same_search s t \<Longrightarrow> same_search (backtrack c row col s) (backtrack d row col t)"
  by (simp add: same_search_def backtrack_def Let_def push_def)

lemma same_check_col:
  "same_search s t \<Longrightarrow>
   fst (check_col c row col s) = fst (check_col d row col t)
   \<and> same_search (snd (check_col c row col s)) (snd (check_col d row col t))"
  by (simp add: same_search_def check_col_def Let_def push_def)

lemma traditional_same:
  "same_config c d \<Longrightarrow> same_search s t \<Longrightarrow>
     fst (solveTraditional c row s) = fst (solveTraditional d row t)
     \<and> same_search (snd (solveTraditional c row s)) (snd (solveTraditional d row t))"
  "same_config c d \<Longrightarrow> same_search s t \<Longrightarrow>
     fst (traditional_cols c row col s) = fst (traditional_cols d row col t)
     \<and> same_search (snd (traditional_cols c row col s)) (snd (traditional_cols d row col t))"
proof (induct c row s and c row col s arbitrary: t and t
    rule: solveTraditional_traditional_cols.induct)
  case (1 c row s)
  note cd = "1.prems"(1) and st = "1.prems"(2)
  have eqs: "c_n d = c_n c" "MAX_STEPS d = MAX_STEPS c" "stepCount t = stepCount s"
    using cd st by (simp_all add: same_config_def same_search_def)
  show ?case
  proof (cases "row = c_n c")
    case True
    then show ?thesis
      using same_found_solution [OF cd st] eqs
      by (simp add: solveTraditional.simps [of c] solveTraditional.simps [of d])
  next
    case ne: False
    show ?thesis
    proof (cases "MAX_STEPS c < stepCount s")
      case True
      then show ?thesis
        using same_step_limit [OF st, of c d] eqs ne
        by (simp add: solveTraditional.simps [of c] solveTraditional.simps [of d])
    next
      case le: False
      from "1.hyps" [OF ne le cd same_enter_row [OF st]] eqs ne le show ?thesis
        by (simp add: solveTraditional.simps [of c] solveTraditional.simps [of d])
    qed
  qed
next
  case (2 c row col s)
  note cd = "2.prems"(1) and st = "2.prems"(2)
  have eqs: "c_n d = c_n c" using cd by (simp add: same_config_def)
  show ?case
  proof (cases "col < c_n c")
    case False
    then show ?thesis using st eqs
      by (simp add: traditional_cols.simps [of c] traditional_cols.simps [of d])
  next
    case lt: True
    define k where "k = check_col c row col s"
    define k' where "k' = check_col d row col t"
    have kc: "(fst k, snd k) = check_col c row col s" by (simp add: k_def)
    have kk: "fst k' = fst k" "same_search (snd k) (snd k')"
      using same_check_col [OF st, of c row col d] by (simp_all add: k_def k'_def)
    show ?thesis
    proof (cases "fst k")
      case False
      from "2.hyps"(3) [OF lt refl kc False cd kk(2)] lt False kk(1) eqs show ?thesis
        by (simp add: traditional_cols.simps [of c _ col] traditional_cols.simps [of d _ col]
            case_prod_beta k_def k'_def)
    next
      case safe: True
      define r where "r = solveTraditional c (row + 1) (place_queen c row col (snd k))"
      define r' where "r' = solveTraditional d (row + 1) (place_queen d row col (snd k'))"
      have rc: "(fst r, snd r) = solveTraditional c (row + 1) (place_queen c row col (snd k))"
        by (simp add: r_def)
      have rr: "fst r' = fst r" "same_search (snd r) (snd r')"
        using "2.hyps"(1) [OF lt refl kc safe cd same_place_queen [OF kk(2)]]
        by (simp_all add: r_def r'_def)
      show ?thesis
      proof (cases "fst r")
        case True
        then show ?thesis using rr lt safe kk(1) eqs
          by (simp add: traditional_cols.simps [of c _ col] traditional_cols.simps [of d _ col]
              case_prod_beta r_def r'_def k_def k'_def)
      next
        case False
        from "2.hyps"(2) [OF lt refl kc safe refl rc False cd same_backtrack [OF rr(2)]]
          lt safe False rr(1) kk(1) eqs
        show ?thesis
          by (simp add: traditional_cols.simps [of c _ col] traditional_cols.simps [of d _ col]
              case_prod_beta r_def r'_def k_def k'_def)
      qed
    qed
  qed
qed

lemma bitmask_same:
  "same_config c d \<Longrightarrow> same_search s t \<Longrightarrow>
     fst (solveBitmask c row cols diag1 diag2 s) = fst (solveBitmask d row cols diag1 diag2 t)
     \<and> same_search (snd (solveBitmask c row cols diag1 diag2 s))
           (snd (solveBitmask d row cols diag1 diag2 t))"
  "same_config c d \<Longrightarrow> same_search s t \<Longrightarrow>
     fst (bitmask_cols c row cols diag1 diag2 col s) = fst (bitmask_cols d row cols diag1 diag2 col t)
     \<and> same_search (snd (bitmask_cols c row cols diag1 diag2 col s))
           (snd (bitmask_cols d row cols diag1 diag2 col t))"
proof (induct c row cols diag1 diag2 s and c row cols diag1 diag2 col s arbitrary: t and t
    rule: solveBitmask_bitmask_cols.induct)
  case (1 c row cols diag1 diag2 s)
  note cd = "1.prems"(1) and st = "1.prems"(2)
  have eqs: "c_n d = c_n c" "MAX_STEPS d = MAX_STEPS c" "stepCount t = stepCount s"
    using cd st by (simp_all add: same_config_def same_search_def)
  show ?case
  proof (cases "row = c_n c")
    case True
    then show ?thesis
      using same_found_solution [OF cd st] eqs
      by (simp add: solveBitmask.simps [of c] solveBitmask.simps [of d])
  next
    case ne: False
    show ?thesis
    proof (cases "MAX_STEPS c < stepCount s")
      case True
      then show ?thesis
        using same_step_limit [OF st, of c d] eqs ne
        by (simp add: solveBitmask.simps [of c] solveBitmask.simps [of d])
    next
      case le: False
      from "1.hyps" [OF ne le cd same_enter_row [OF st]] eqs ne le show ?thesis
        by (simp add: solveBitmask.simps [of c] solveBitmask.simps [of d])
    qed
  qed
next
  case (2 c row cols diag1 diag2 col s)
  note cd = "2.prems"(1) and st = "2.prems"(2)
  have eqs: "c_n d = c_n c" using cd by (simp add: same_config_def)
  show ?case
  proof (cases "col < c_n c")
    case False
    then show ?thesis using st eqs
      by (simp add: bitmask_cols.simps [of c] bitmask_cols.simps [of d])
  next
    case lt: True
    show ?thesis
    proof (cases "isSafeBitmask row col cols diag1 diag2")
      case False
      from "2.hyps"(3) [OF lt False cd st] lt False eqs show ?thesis
        by (simp add: bitmask_cols.simps [of c _ _ _ _ col] bitmask_cols.simps [of d _ _ _ _ col])
    next
      case safe: True
      define r where "r = solveBitmask c (row + 1) (cols OR shl1 (int col))
          (diag1 OR shl1 (int row - int col + MAX_N)) (diag2 OR shl1 (int row + int col))
          (place_queen c row col s)"
      define r' where "r' = solveBitmask d (row + 1) (cols OR shl1 (int col))
          (diag1 OR shl1 (int row - int col + MAX_N)) (diag2 OR shl1 (int row + int col))
          (place_queen d row col t)"
      have rc: "(fst r, snd r) = solveBitmask c (row + 1) (cols OR shl1 (int col))
          (diag1 OR shl1 (int row - int col + MAX_N)) (diag2 OR shl1 (int row + int col))
          (place_queen c row col s)"
        by (simp add: r_def)
      have rr: "fst r' = fst r" "same_search (snd r) (snd r')"
        using "2.hyps"(1) [OF lt safe refl refl refl cd same_place_queen [OF st]]
        by (simp_all add: r_def r'_def)
      show ?thesis
      proof (cases "fst r")
        case True
        then show ?thesis using rr lt safe eqs
          by (simp add: bitmask_cols.simps [of c _ _ _ _ col] bitmask_cols.simps [of d _ _ _ _ col]
              Let_def case_prod_beta r_def r'_def)
      next
        case False
        from "2.hyps"(2) [OF lt safe refl refl refl refl rc False cd same_backtrack [OF rr(2)]]
          lt safe False rr(1) eqs
        show ?thesis
          by (simp add: bitmask_cols.simps [of c _ _ _ _ col] bitmask_cols.simps [of d _ _ _ _ col]
              Let_def case_prod_beta r_def r'_def)
      qed
    qed
  qed
qed

lemma nq_solved_emitted:
  "\<exists>ys. emitted (nq_solved input) = emitted (nq_init input) @ ys
        \<and> list_all (solver_step (nq_config input)) ys"
  using nq_solved_grows [of input] by (simp add: grows_def)

lemma nq_trace_parts:
  assumes "0 \<le> q_n input"
  shows "\<exists>x ys. nq_generateSteps input = Inr (x # ys @ nq_tail input)
          \<and> kind x = Init
          \<and> field ''n'' x = Some (Num (Exact (effective_n input)))
          \<and> field ''board'' x = Some (board_val (replicate (nat (effective_n input)) (Some (- 1))))
          \<and> field ''maxSolutions'' x = Some (Num (Exact (effective_maxSolutions input)))
          \<and> list_all (solver_step (nq_config input)) ys"
proof -
  obtain ys where ys: "emitted (nq_solved input) = emitted (nq_init input) @ ys"
    "list_all (solver_step (nq_config input)) ys"
    using nq_solved_emitted by blast
  show ?thesis
    using ys nq_generateSteps_shape [OF assms]
    by (simp add: nq_init_def field_def)
qed

lemma nq_tail_kinds:
  "map kind (nq_tail input) =
     (if solutions (nq_solved input) = [] then [NoSolution, Complete] else [Complete])"
  by (simp add: nq_tail_def Let_def)

lemma nq_tail_n:
  "list_all (\<lambda>x. field ''n'' x = Some (Num (Exact (effective_n input)))) (nq_tail input)"
  by (simp add: nq_tail_def Let_def field_def)

lemma nq_tail_last: "nq_tail input \<noteq> [] \<and> kind (last (nq_tail input)) = Complete"
  by (simp add: nq_tail_def Let_def)

lemma nq_config_n: "0 \<le> q_n input \<Longrightarrow> num (c_n (nq_config input)) = Num (Exact (effective_n input))"
  by (simp add: nq_config_def num_def effective_n_def MAX_N_def)

lemma nq_trace_structure:
  assumes "0 \<le> q_n input"
  shows "\<exists>t. nq_generateSteps input = Inr t \<and> t \<noteq> [] \<and> kind (last t) = Complete
          \<and> count_kind Complete t = 1
          \<and> (\<forall>i < length t. kind (t ! i) = NoSolution \<longrightarrow> Suc (Suc i) = length t)
          \<and> (\<forall>i < length t. kind (t ! i) = StepLimit \<longrightarrow> Suc i < length t)"
proof -
  obtain x ys where t: "nq_generateSteps input = Inr (x # ys @ nq_tail input)"
    and x: "kind x = Init" and ys: "list_all (solver_step (nq_config input)) ys"
    using nq_trace_parts [OF assms] by blast
  define t where "t = x # ys @ nq_tail input"
  define tl where "tl = nq_tail input"
  have tk: "map kind tl = [NoSolution, Complete] \<or> map kind tl = [Complete]"
    unfolding tl_def by (simp add: nq_tail_kinds)
  have yk: "\<forall>y \<in> set ys. kind y \<noteq> NoSolution \<and> kind y \<noteq> Complete"
    using ys by (auto simp: list_all_iff solver_step_def)
  have cnt0: "filter (\<lambda>s. kind s = Complete) ys = []"
    using yk by (auto simp: filter_empty_conv)
  have l: "t \<noteq> [] \<and> kind (last t) = Complete"
    unfolding t_def using nq_tail_last [of input] by simp
  have c: "count_kind Complete t = 1"
  proof -
    have "length (filter (\<lambda>k. k = Complete) (map kind tl)) = 1"
      using tk by auto
    then have "length (filter (\<lambda>s. kind s = Complete) tl) = 1"
      by (simp add: filter_map comp_def)
    then show ?thesis
      unfolding t_def count_kind_def tl_def [symmetric] using x cnt0 by simp
  qed
  have n: "\<forall>i < length t. kind (t ! i) = NoSolution \<longrightarrow> Suc (Suc i) = length t"
  proof (intro allI impI)
    fix i assume i: "i < length t" and k: "kind (t ! i) = NoSolution"
    have "i \<noteq> 0"
    proof
      assume "i = 0"
      then have "t ! i = x" by (simp add: t_def)
      then show False using k x by simp
    qed
    then obtain j where j: "i = Suc j" by (cases i) auto
    have "\<not> j < length ys"
    proof
      assume "j < length ys"
      then have "t ! i = ys ! j" "ys ! j \<in> set ys" by (simp_all add: t_def j nth_append)
      then show False using yk k by auto
    qed
    then have ge: "length ys \<le> j" by simp
    then have e: "t ! i = tl ! (j - length ys)"
      by (simp add: t_def j nth_append tl_def)
    have jl: "j - length ys < length tl" using i ge by (simp add: t_def j tl_def)
    have "map kind tl ! (j - length ys) = NoSolution" using k e jl by simp
    then have "map kind tl = [NoSolution, Complete] \<and> j - length ys = 0"
      using tk jl by (cases "j - length ys") (auto simp: length_Suc_conv)
    then have "length tl = 2" "j = length ys" using ge
      by (auto dest: arg_cong [where f = length])
    then show "Suc (Suc i) = length t" by (simp add: t_def j tl_def)
  qed
  have s: "\<forall>i < length t. kind (t ! i) = StepLimit \<longrightarrow> Suc i < length t"
  proof (intro allI impI)
    fix i assume i: "i < length t" and k: "kind (t ! i) = StepLimit"
    show "Suc i < length t"
    proof (rule ccontr)
      assume "\<not> Suc i < length t"
      then have "i = length t - 1" using i by simp
      then have "t ! i = last t" using l by (simp add: last_conv_nth)
      then show False using k l by simp
    qed
  qed
  from t l c n s show ?thesis unfolding t_def by blast
qed

lemma nq_normalised:
  "nq_generateSteps input =
   nq_generateSteps (input\<lparr>q_n := min (q_n input) 20,
                          q_maxSolutions := Some (effective_maxSolutions input)\<rparr>)"
  by (simp add: nq_generateSteps_def effective_maxSolutions_def MAX_N_def
      split: option.splits)

text \<open>
  C9. Whatever the input, validated or not, with a non-negative \<open>n\<close>:
  \<open>generateSteps\<close> returns the trace it returns for the input with \<open>n\<close> replaced by
  \<open>min n 20\<close> and \<open>maxSolutions\<close> replaced by its effective value, which is 1 when
  \<open>maxSolutions\<close> is absent or 0; every step of the trace carries \<open>n = min n 20\<close>, and
  the first step carries the initial board of that size and the effective
  \<open>maxSolutions\<close>.
\<close>

theorem nq_effective_input:
  assumes "0 \<le> q_n input"
  shows "nq_generateSteps input =
           nq_generateSteps (input\<lparr>q_n := min (q_n input) 20,
                                  q_maxSolutions := Some (effective_maxSolutions input)\<rparr>)
         \<and> effective_maxSolutions input =
             (if q_maxSolutions input = None \<or> q_maxSolutions input = Some 0 then 1
              else the (q_maxSolutions input))
         \<and> (\<exists>t. nq_generateSteps input = Inr t
               \<and> list_all (\<lambda>x. field ''n'' x = Some (Num (Exact (min (q_n input) 20)))) t
               \<and> field ''board'' (hd t)
                   = Some (board_val (replicate (nat (min (q_n input) 20)) (Some (- 1))))
               \<and> field ''maxSolutions'' (hd t)
                   = Some (Num (Exact (effective_maxSolutions input))))"
proof -
  obtain x ys where t: "nq_generateSteps input = Inr (x # ys @ nq_tail input)"
    and x: "field ''n'' x = Some (Num (Exact (effective_n input)))"
      "field ''board'' x = Some (board_val (replicate (nat (effective_n input)) (Some (- 1))))"
      "field ''maxSolutions'' x = Some (Num (Exact (effective_maxSolutions input)))"
    and ys: "list_all (solver_step (nq_config input)) ys"
    using nq_trace_parts [OF assms] by blast
  have en: "effective_n input = min (q_n input) 20"
    by (simp add: effective_n_def MAX_N_def)
  have "list_all (\<lambda>x. field ''n'' x = Some (Num (Exact (effective_n input)))) ys"
    using ys nq_config_n [OF assms] by (auto simp: list_all_iff solver_step_def)
  then have all: "list_all (\<lambda>x. field ''n'' x = Some (Num (Exact (effective_n input))))
      (x # ys @ nq_tail input)"
    using x(1) nq_tail_n [of input] by simp
  have m: "effective_maxSolutions input =
      (if q_maxSolutions input = None \<or> q_maxSolutions input = Some 0 then 1
       else the (q_maxSolutions input))"
    by (auto simp: effective_maxSolutions_def split: option.splits)
  show ?thesis
    using t x all m nq_normalised [of input] unfolding en by auto
qed

theorem nq_effective_input_witness:
  "nq_generateSteps \<lparr>q_n = 25, q_maxSolutions = Some 0, q_mode = None, q_useBitmask = None\<rparr>
     = nq_generateSteps \<lparr>q_n = 20, q_maxSolutions = Some 1, q_mode = None, q_useBitmask = None\<rparr>
   \<and> (\<exists>t. nq_generateSteps \<lparr>q_n = 25, q_maxSolutions = Some 0, q_mode = None, q_useBitmask = None\<rparr> = Inr t
         \<and> list_all (\<lambda>x. field ''n'' x = Some (Num (Exact 20))) t
         \<and> field ''maxSolutions'' (hd t) = Some (Num (Exact 1)))"
proof -
  let ?i = "\<lparr>q_n = 25, q_maxSolutions = Some 0, q_mode = None, q_useBitmask = None\<rparr>"
  have h: "0 \<le> q_n ?i" by simp
  have e: "effective_maxSolutions ?i = 1" by (simp add: effective_maxSolutions_def)
  have m: "min (q_n ?i) 20 = 20" by simp
  note w = nq_effective_input [OF h, unfolded e m]
  from w have a: "nq_generateSteps ?i
      = nq_generateSteps \<lparr>q_n = 20, q_maxSolutions = Some 1, q_mode = None, q_useBitmask = None\<rparr>"
    by simp
  from w obtain t where "nq_generateSteps ?i = Inr t"
    "list_all (\<lambda>x. field ''n'' x = Some (Num (Exact 20))) t"
    "field ''maxSolutions'' (hd t) = Some (Num (Exact 1))"
    by blast
  with a show ?thesis by blast
qed

lemma nq_valid_n:
  assumes "valid (nq_validateInput input)"
  shows "1 \<le> q_n input \<and> q_n input \<le> 20"
  using assms by (simp add: nq_validateInput_def MAX_N_def split: if_splits)

lemma nq_returns_terminal:
  assumes "0 \<le> q_n input"
  shows "\<exists>t. nq_generateSteps input = Inr t \<and> t \<noteq> [] \<and> terminal (kind (last t))"
  using nq_generateSteps_shape [OF assms] nq_tail_last [of input]
  by (simp add: terminal_def)

lemmas search_eval = found_solution_def step_limit_def enter_row_def place_queen_def
  backtrack_def check_col_def isSafeTraditional_def isSafe_from.simps arr_get_def arr_set_def
  push_def shouldSample_def Let_def row_col_step_def solveTraditional.simps
  traditional_cols.simps

lemma blank_2: "blank 2 = \<lparr>emitted = [], board = [Some (- 1), Some (- 1)],
    solutions = [], stepCount = 0\<rparr>"
  by (simp add: blank_def numeral_eq_Suc)

lemma blank_3: "blank 3 = \<lparr>emitted = [], board = [Some (- 1), Some (- 1), Some (- 1)],
    solutions = [], stepCount = 0\<rparr>"
  by (simp add: blank_def numeral_eq_Suc)

lemma blank_4: "blank 4 = \<lparr>emitted = [], board = [Some (- 1), Some (- 1), Some (- 1), Some (- 1)],
    solutions = [], stepCount = 0\<rparr>"
  by (simp add: blank_def numeral_eq_Suc)

lemma blank_8: "blank 8 = \<lparr>emitted = [],
    board = [Some (- 1), Some (- 1), Some (- 1), Some (- 1),
             Some (- 1), Some (- 1), Some (- 1), Some (- 1)],
    solutions = [], stepCount = 0\<rparr>"
  by (simp add: blank_def numeral_eq_Suc)

lemmas bitmask_eval = found_solution_def step_limit_def enter_row_def place_queen_def
  backtrack_def isSafeBitmask_def shl1_def MAX_N_def arr_set_def
  push_def shouldSample_def Let_def row_col_step_def solveBitmask.simps
  bitmask_cols.simps

lemma traditional_2:
  "10000 \<le> maxsteps \<Longrightarrow>
     solutions (snd (solveTraditional (quiet 2 k maxsteps) 0 (blank 2))) = []"
  unfolding blank_2 by (simp add: quiet_def search_eval)

lemma bitmask_2:
  "10000 \<le> maxsteps \<Longrightarrow>
     solutions (snd (solveBitmask (quiet 2 k maxsteps) 0 0 0 0 (blank 2))) = []"
  unfolding blank_2 by (simp add: quiet_def bitmask_eval)

lemma traditional_3:
  "10000 \<le> maxsteps \<Longrightarrow>
     solutions (snd (solveTraditional (quiet 3 k maxsteps) 0 (blank 3))) = []"
  unfolding blank_3 by (simp add: quiet_def search_eval)

lemma bitmask_3:
  "10000 \<le> maxsteps \<Longrightarrow>
     solutions (snd (solveBitmask (quiet 3 k maxsteps) 0 0 0 0 (blank 3))) = []"
  unfolding blank_3 by (simp add: quiet_def bitmask_eval)

lemma traditional_4:
  "10000 \<le> maxsteps \<Longrightarrow>
     solutions (snd (solveTraditional (quiet 4 10 maxsteps) 0 (blank 4)))
     = [[Some 1, Some 3, Some 0, Some 2], [Some 2, Some 0, Some 3, Some 1]]"
  unfolding blank_4 by (simp add: quiet_def search_eval)

lemma bitmask_4:
  "10000 \<le> maxsteps \<Longrightarrow>
     solutions (snd (solveBitmask (quiet 4 10 maxsteps) 0 0 0 0 (blank 4)))
     = [[Some 1, Some 3, Some 0, Some 2], [Some 2, Some 0, Some 3, Some 1]]"
  unfolding blank_4 by (simp add: quiet_def bitmask_eval)

lemma traditional_8:
  "10000 \<le> maxsteps \<Longrightarrow>
     solutions (snd (solveTraditional (quiet 8 1 maxsteps) 0 (blank 8)))
     = [[Some 0, Some 4, Some 7, Some 5, Some 2, Some 6, Some 1, Some 3]]"
  unfolding blank_8 by (simp add: quiet_def search_eval)

lemma bitmask_8:
  "10000 \<le> maxsteps \<Longrightarrow>
     solutions (snd (solveBitmask (quiet 8 1 maxsteps) 0 0 0 0 (blank 8)))
     = [[Some 0, Some 4, Some 7, Some 5, Some 2, Some 6, Some 1, Some 3]]"
  unfolding blank_8 by (simp add: quiet_def bitmask_eval)

lemma any_mode_search:
  assumes "0 \<le> q_n input" "q_n input \<le> 20"
  shows "\<exists>bitmask maxsteps. 10000 \<le> maxsteps \<and>
    solutions (nq_solved input)
      = quiet_search bitmask (nat (q_n input)) (effective_maxSolutions input) maxsteps"
proof -
  have en: "effective_n input = q_n input" using assms by (simp add: effective_n_def MAX_N_def)
  define maxsteps where "maxsteps = MAX_STEPS (nq_config input)"
  define b where "b = (effective_useBitmask input \<and> effective_mode input \<noteq> QFull)"
  have l: "10000 \<le> maxsteps" by (simp add: maxsteps_def nq_config_def)
  have c: "same_config (nq_config input)
      (quiet (nat (q_n input)) (effective_maxSolutions input) maxsteps)"
    by (simp add: same_config_def nq_config_def quiet_def en maxsteps_def)
  have s: "same_search (nq_init input) (blank (nat (q_n input)))"
    by (simp add: same_search_def nq_init_def blank_def en)
  have ns: "nq_solved input = snd (if b then solveBitmask (nq_config input) 0 0 0 0 (nq_init input)
      else solveTraditional (nq_config input) 0 (nq_init input))"
    unfolding nq_solved_def b_def ..
  have "solutions (nq_solved input)
      = quiet_search b (nat (q_n input)) (effective_maxSolutions input) maxsteps"
  proof (cases b)
    case True
    then show ?thesis
      using bitmask_same(1) [OF c s, of 0 0 0 0]
      by (simp add: ns quiet_search_def same_search_def)
  next
    case False
    then show ?thesis
      using traditional_same(1) [OF c s, of 0]
      by (simp add: ns quiet_search_def same_search_def)
  qed
  with l show ?thesis by blast
qed

lemma quiet_search_2: "10000 \<le> maxsteps \<Longrightarrow> quiet_search b 2 k maxsteps = []"
  by (simp add: quiet_search_def traditional_2 bitmask_2)

lemma quiet_search_3: "10000 \<le> maxsteps \<Longrightarrow> quiet_search b 3 k maxsteps = []"
  by (simp add: quiet_search_def traditional_3 bitmask_3)

lemma quiet_search_4:
  "10000 \<le> maxsteps \<Longrightarrow> quiet_search b 4 10 maxsteps
     = [[Some 1, Some 3, Some 0, Some 2], [Some 2, Some 0, Some 3, Some 1]]"
  by (simp add: quiet_search_def traditional_4 bitmask_4)

lemma quiet_search_8:
  "10000 \<le> maxsteps \<Longrightarrow> quiet_search b 8 1 maxsteps
     = [[Some 0, Some 4, Some 7, Some 5, Some 2, Some 6, Some 1, Some 3]]"
  by (simp add: quiet_search_def traditional_8 bitmask_8)

lemma reported_solutions:
  assumes "0 \<le> q_n input"
  shows "reported ''solutionsCount'' (nq_generateSteps input)
           = Some (Num (Exact (int (length (solutions (nq_solved input))))))"
    and "reported ''allSolutions'' (nq_generateSteps input)
           = Some (Arr (map board_val (solutions (nq_solved input))))"
    and "solutions (nq_solved input) = [] \<Longrightarrow>
           ending (nq_generateSteps input) = [NoSolution, Complete]"
  unfolding nq_generateSteps_shape [OF assms] reported_def ending_def
  by (simp_all add: nq_tail_def Let_def field_def num_def)

lemma count_2:
  "solutions (nq_solved \<lparr>q_n = 2, q_maxSolutions = k, q_mode = md, q_useBitmask = ub\<rparr>) = []"
  using any_mode_search [of "\<lparr>q_n = 2, q_maxSolutions = k, q_mode = md, q_useBitmask = ub\<rparr>"]
  by (auto simp: quiet_search_2)

lemma count_3:
  "solutions (nq_solved \<lparr>q_n = 3, q_maxSolutions = k, q_mode = md, q_useBitmask = ub\<rparr>) = []"
  using any_mode_search [of "\<lparr>q_n = 3, q_maxSolutions = k, q_mode = md, q_useBitmask = ub\<rparr>"]
  by (auto simp: quiet_search_3)

lemma count_4:
  "solutions (nq_solved \<lparr>q_n = 4, q_maxSolutions = Some 10, q_mode = md, q_useBitmask = ub\<rparr>)
     = [[Some 1, Some 3, Some 0, Some 2], [Some 2, Some 0, Some 3, Some 1]]"
  using any_mode_search [of "\<lparr>q_n = 4, q_maxSolutions = Some 10, q_mode = md, q_useBitmask = ub\<rparr>"]
  by (auto simp: quiet_search_4 effective_maxSolutions_def)

lemma count_8:
  "solutions (nq_solved \<lparr>q_n = 8, q_maxSolutions = Some 1, q_mode = md, q_useBitmask = ub\<rparr>)
     = [[Some 0, Some 4, Some 7, Some 5, Some 2, Some 6, Some 1, Some 3]]"
  using any_mode_search [of "\<lparr>q_n = 8, q_maxSolutions = Some 1, q_mode = md, q_useBitmask = ub\<rparr>"]
  by (auto simp: quiet_search_8 effective_maxSolutions_def)

text \<open>
  C6. In every mode and for either setting of \<open>useBitmask\<close>, given or derived, the
  last step of the trace reports 2 solutions for \<open>n = 4\<close> with \<open>maxSolutions = 10\<close>
  and 1 solution for \<open>n = 8\<close> with \<open>maxSolutions = 1\<close>; for \<open>n = 2\<close> and
  \<open>n = 3\<close> and any \<open>maxSolutions\<close>, present or not, it reports 0 and the trace
  ends with \<open>no-solution\<close>, \<open>complete\<close>.
\<close>

theorem nq_solution_counts:
  "reported ''solutionsCount''
     (nq_generateSteps \<lparr>q_n = 4, q_maxSolutions = Some 10, q_mode = md, q_useBitmask = ub\<rparr>)
     = Some (Num (Exact 2))
   \<and> reported ''solutionsCount''
       (nq_generateSteps \<lparr>q_n = 8, q_maxSolutions = Some 1, q_mode = md, q_useBitmask = ub\<rparr>)
       = Some (Num (Exact 1))
   \<and> reported ''solutionsCount''
       (nq_generateSteps \<lparr>q_n = 2, q_maxSolutions = k, q_mode = md, q_useBitmask = ub\<rparr>)
       = Some (Num (Exact 0))
   \<and> ending (nq_generateSteps \<lparr>q_n = 2, q_maxSolutions = k, q_mode = md, q_useBitmask = ub\<rparr>)
       = [NoSolution, Complete]
   \<and> reported ''solutionsCount''
       (nq_generateSteps \<lparr>q_n = 3, q_maxSolutions = k, q_mode = md, q_useBitmask = ub\<rparr>)
       = Some (Num (Exact 0))
   \<and> ending (nq_generateSteps \<lparr>q_n = 3, q_maxSolutions = k, q_mode = md, q_useBitmask = ub\<rparr>)
       = [NoSolution, Complete]"
  by (simp add: reported_solutions count_2 count_3 count_4 count_8)

text \<open>
  C10. Every trace \<open>generateSteps\<close> returns ends with a \<open>complete\<close> step, the only
  one in the trace. A \<open>no-solution\<close> step is the step right before it, and a
  \<open>step-limit\<close> step is never the last step: the \<open>complete\<close> step comes after both.
\<close>

theorem nq_ends_with_complete:
  assumes "nq_generateSteps input = Inr t"
  shows "t \<noteq> [] \<and> kind (last t) = Complete \<and> count_kind Complete t = 1
         \<and> (\<forall>i < length t. kind (t ! i) = NoSolution \<longrightarrow> Suc (Suc i) = length t)
         \<and> (\<forall>i < length t. kind (t ! i) = StepLimit \<longrightarrow> Suc i < length t)"
proof (cases "q_n input < 0")
  case True
  then show ?thesis using assms by (simp add: nq_generateSteps_negative)
next
  case False
  then have "0 \<le> q_n input" by simp
  from nq_trace_structure [OF this] obtain t' where t': "nq_generateSteps input = Inr t'"
    and p: "t' \<noteq> [] \<and> kind (last t') = Complete \<and> count_kind Complete t' = 1
         \<and> (\<forall>i < length t'. kind (t' ! i) = NoSolution \<longrightarrow> Suc (Suc i) = length t')
         \<and> (\<forall>i < length t'. kind (t' ! i) = StepLimit \<longrightarrow> Suc i < length t')"
    by blast
  have "t' = t" using t' assms by simp
  then show ?thesis using p by simp
qed

theorem nq_ends_with_complete_witness:
  "\<exists>t. nq_generateSteps \<lparr>q_n = 3, q_maxSolutions = Some 1, q_mode = None, q_useBitmask = None\<rparr>
         = Inr t
       \<and> map kind (drop (length t - 2) t) = [NoSolution, Complete]
       \<and> t \<noteq> [] \<and> kind (last t) = Complete \<and> count_kind Complete t = 1
       \<and> (\<forall>i < length t. kind (t ! i) = NoSolution \<longrightarrow> Suc (Suc i) = length t)
       \<and> (\<forall>i < length t. kind (t ! i) = StepLimit \<longrightarrow> Suc i < length t)"
proof -
  let ?i = "\<lparr>q_n = 3, q_maxSolutions = Some 1, q_mode = None, q_useBitmask = None\<rparr>"
  obtain t where t: "nq_generateSteps ?i = Inr t"
    using nq_trace_structure [of ?i] by auto
  have "ending (nq_generateSteps ?i) = [NoSolution, Complete]"
    by (rule reported_solutions(3)) (simp_all add: count_3)
  then have e: "map kind (drop (length t - 2) t) = [NoSolution, Complete]"
    by (simp add: ending_def t)
  note w = nq_ends_with_complete [OF t]
  show ?thesis
    by (rule exI [of _ t]) (use t e w in simp)
qed

section \<open>Validation and the traces of both runners\<close>





text \<open>
  C1. For every input its \<open>validateInput\<close> accepts, each runner returns a trace
  that is not empty and whose last step is \<open>complete\<close>, \<open>no-solution\<close> or
  \<open>step-limit\<close>.
\<close>

theorem builders_return_terminated_trace:
  assumes "valid (fib_validateInput fi)" and "valid (nq_validateInput qi)"
  shows "(\<exists>t. fib_generateSteps fi = Inr t \<and> t \<noteq> [] \<and> terminal (kind (last t)))
       \<and> (\<exists>t. nq_generateSteps qi = Inr t \<and> t \<noteq> [] \<and> terminal (kind (last t)))"
proof -
  obtain pre x where "fib_generateSteps fi = Inr (pre @ [x])" "kind x = Complete"
    using fib_trace_complete [of fi] by blast
  then have "\<exists>t. fib_generateSteps fi = Inr t \<and> t \<noteq> [] \<and> terminal (kind (last t))"
    by (simp add: terminal_def)
  moreover have "\<exists>t. nq_generateSteps qi = Inr t \<and> t \<noteq> [] \<and> terminal (kind (last t))"
    using nq_returns_terminal [of qi] nq_valid_n [OF assms(2)] by simp
  ultimately show ?thesis by blast
qed

theorem builders_return_terminated_trace_witness:
  "(\<exists>t. fib_generateSteps \<lparr>f_n = 20, f_strategy = Some DpArray, f_detailLevel = Some 50,
                              f_mode = Some Full\<rparr> = Inr t
        \<and> t \<noteq> [] \<and> terminal (kind (last t)))
   \<and> (\<exists>t. nq_generateSteps \<lparr>q_n = 8, q_maxSolutions = Some 1, q_mode = Some QFull,
                               q_useBitmask = Some False\<rparr> = Inr t
        \<and> t \<noteq> [] \<and> terminal (kind (last t)))"
proof -
  have a: "valid (fib_validateInput \<lparr>f_n = 20, f_strategy = Some DpArray,
      f_detailLevel = Some 50, f_mode = Some Full\<rparr>)"
    by (simp add: fib_validateInput_def)
  have b: "valid (nq_validateInput \<lparr>q_n = 8, q_maxSolutions = Some 1, q_mode = Some QFull,
      q_useBitmask = Some False\<rparr>)"
    by (simp add: nq_validateInput_def MAX_N_def)
  from builders_return_terminated_trace [OF a b] show ?thesis .
qed

end
